theory Spec2Isabelle
  imports Complex_Main "HOL-Library.Multiset"
begin

section \<open>The co-star search of server/src/lib/six-degrees.ts\<close>

subsection \<open>Values of the host language\<close>

text \<open>
  A JavaScript number that came out of \<open>parseInt\<close>: an integer or \<open>NaN\<close>.
\<close>

datatype js_number = Num int | NaN

text \<open>
  The errors a call can end with: a rejected provider or store call, and the
  \<open>TypeError\<close> of reading a field of \<open>undefined\<close> (what \<open>queue.shift()!\<close> gives
  on an empty queue).
\<close>

datatype error = ProviderUnavailable | StoreUnavailable | TypeError

text \<open>Truthiness of a \<open>string | null\<close> value: neither null/undefined nor the empty string.\<close>

fun truthy :: "string option \<Rightarrow> bool" where
  "truthy None = False"
| "truthy (Some s) = (s \<noteq> [])"

definition is_whitespace :: "char \<Rightarrow> bool" where
  "is_whitespace c = (c \<in> set [CHR '' '', CHR 0x09, CHR 0x0A, CHR 0x0B, CHR 0x0C, CHR 0x0D])"

definition digit_value :: "char \<Rightarrow> nat option" where
  "digit_value c =
     (let n = (of_char c :: nat) in
      if 48 \<le> n \<and> n \<le> 57 then Some (n - 48)
      else if 97 \<le> n \<and> n \<le> 122 then Some (n - 87)
      else if 65 \<le> n \<and> n \<le> 90 then Some (n - 55)
      else None)"

fun parse_digits :: "nat \<Rightarrow> string \<Rightarrow> nat option \<Rightarrow> nat option" where
  "parse_digits r [] acc = acc"
| "parse_digits r (c # cs) acc =
     (case digit_value c of
        None \<Rightarrow> acc
      | Some d \<Rightarrow>
          if d < r
          then parse_digits r cs (Some (r * (case acc of None \<Rightarrow> 0 | Some a \<Rightarrow> a) + d))
          else acc)"

text \<open>
  \<open>parseInt(s)\<close> with no radix: leading white space and a sign are skipped, a
  \<open>0x\<close> prefix selects base 16, the longest prefix of digits is read, and no digit
  at all gives \<open>NaN\<close>. Strings are taken to be ASCII, as the provider's release dates
  are: of the white space of the language only the ASCII characters are skipped
  (\<open>is_whitespace\<close>), not U+00A0, U+FEFF and the other Unicode spaces.
\<close>

definition parseInt :: "string \<Rightarrow> js_number" where
  "parseInt s =
     (let s1 = dropWhile is_whitespace s;
          neg = (case s1 of c # _ \<Rightarrow> c = CHR ''-'' | [] \<Rightarrow> False);
          s2 = (case s1 of c # t \<Rightarrow> if c = CHR ''-'' \<or> c = CHR ''+'' then t else s1 | [] \<Rightarrow> s1);
          hex = (case s2 of a # b # _ \<Rightarrow> a = CHR ''0'' \<and> (b = CHR ''x'' \<or> b = CHR ''X'') | _ \<Rightarrow> False);
          s3 = (if hex then drop 2 s2 else s2)
      in case parse_digits (if hex then 16 else 10) s3 None of
           None \<Rightarrow> NaN
         | Some n \<Rightarrow> Num (if neg then - int n else int n))"

fun show_nat :: "nat \<Rightarrow> string" where
  "show_nat n =
     (if n < 10 then [char_of (48 + n)]
      else show_nat (n div 10) @ [char_of (48 + n mod 10)])"

text \<open>
  The template \<open>`${n}`\<close> for an integer \<open>n\<close> below \<open>10^21\<close> in absolute value, as
  actor ids are: all digits are printed. (From \<open>10^21\<close> on the language prints
  exponent notation, which \<open>show_int\<close> does not.)
\<close>

definition show_int :: "int \<Rightarrow> string" where
  "show_int i = (if i < 0 then CHR ''-'' # show_nat (nat (- i)) else show_nat (nat i))"

subsection \<open>Data of the provider and of the store\<close>

text \<open>
  The declarations of \<open>tmdb.js\<close> and \<open>db.js\<close> are not part of the sources at hand; the
  records below hold the fields that \<open>six-degrees.ts\<close> reads. A filmography entry
  has the movie id, its title, the raw release date (\<open>None\<close> for a missing one) and
  the popularity score, a finite number and so a rational. Ids are integers.
\<close>

record TMDBCastCredit =
  cc_id :: int
  cc_title :: string
  cc_release_date :: "string option"
  cc_popularity :: rat

record TMDBPersonCredits =
  pc_cast :: "TMDBCastCredit list"

record TMDBCastMember =
  cm_id :: int

record TMDBMovieCredits =
  mc_cast :: "TMDBCastMember list"

record TMDBPerson =
  person_id :: int
  person_name :: string
  profile_path :: "string option"
  deathday :: "string option"

record DeceasedPersonRecord =
  tmdb_id :: int
  db_name :: string
  db_deathday :: "string option"
  cause_of_death :: "string option"
  age_at_death :: "int option"

subsection \<open>Data of the search\<close>

record PathActor =
  pa_id :: int
  pa_name :: string
  profilePath :: "string option"
  isDeceased :: bool

record PathMovie =
  pm_id :: int
  pm_title :: string
  pm_year :: "js_number option"
  posterPath :: "string option"

record PathSegment =
  actor :: PathActor
  seg_movie :: "PathMovie option"

record DeceasedOnPath =
  dp_id :: int
  dp_name :: string
  dp_deathday :: "string option"
  causeOfDeath :: "string option"
  ageAtDeath :: "int option"

record ConnectionResult =
  degrees :: int
  path :: "PathSegment list"
  totalDeceased :: nat
  deceasedOnPath :: "DeceasedOnPath list"

text \<open>The value type of the co-star map: \<open>{ movieId, movieTitle, movieYear }\<close>.\<close>

record CoStarInfo =
  movieId :: int
  movieTitle :: string
  movieYear :: "js_number option"

text \<open>\<open>BFSNode["movie"]\<close>: \<open>{ id, title, year }\<close>.\<close>

record NodeMovie =
  nm_id :: int
  nm_title :: string
  nm_year :: "js_number option"

datatype BFSNode =
  BFSNode (actorId: int) (parent: "BFSNode option") (movie: "NodeMovie option")

record MeetingPoint =
  mp_actorId :: int
  movieFromA :: "NodeMovie option"
  movieFromB :: "NodeMovie option"

subsection \<open>The outside world\<close>

text \<open>
  The four asynchronous functions the module imports. Each is a function of its
  argument that either rejects or resolves.
\<close>

record env =
  getPersonCredits :: "int \<Rightarrow> error + TMDBPersonCredits"
  getMovieCredits :: "int \<Rightarrow> error + TMDBMovieCredits"
  getPersonDetails :: "int \<Rightarrow> error + TMDBPerson"
  getDeceasedPersons :: "int list \<Rightarrow> error + (int \<rightharpoonup> DeceasedPersonRecord)"

datatype call =
  PersonCredits int | MovieCredits int | PersonDetails int | DeceasedPersons "int list"

text \<open>
  The state that outlives a call: the module-level \<open>filmographyCache\<close>, and the
  log of the external calls issued so far, oldest first. The log is what an observer
  of the providers sees; the code does not read it.
\<close>

record world =
  filmographyCache :: "int \<rightharpoonup> TMDBPersonCredits"
  calls :: "call list"

definition issue :: "call \<Rightarrow> world \<Rightarrow> world" where
  "issue c w = w\<lparr>calls := calls w @ [c]\<rparr>"

subsection \<open>The filmography cache\<close>

text \<open>
  \<open>getFilmography\<close> (lines 45 to 53): a cached filmography is returned as it is;
  otherwise the provider is asked, and its answer is stored before it is returned. A
  rejected fetch stores nothing and rethrows.
\<close>

definition getFilmography :: "env \<Rightarrow> world \<Rightarrow> int \<Rightarrow> world \<times> (error + TMDBPersonCredits)" where
  "getFilmography e w a =
     (case filmographyCache w a of
        Some credits \<Rightarrow> (w, Inr credits)
      | None \<Rightarrow>
          (let w1 = issue (PersonCredits a) w in
           case getPersonCredits e a of
             Inl err \<Rightarrow> (w1, Inl err)
           | Inr credits \<Rightarrow>
               (w1\<lparr>filmographyCache := (filmographyCache w1)(a \<mapsto> credits)\<rparr>, Inr credits)))"

definition clearFilmographyCache :: "world \<Rightarrow> world" where
  "clearFilmographyCache w = w\<lparr>filmographyCache := Map.empty\<rparr>"

subsection \<open>The co-star expander\<close>

text \<open>
  The co-star map is a JavaScript \<open>Map\<close>, iterated in insertion order by the
  search: an association list, a new key appended at the end.
\<close>

type_synonym costars = "(int \<times> CoStarInfo) list"

text \<open>
  \<open>filter(release_date).sort((a, b) => b.popularity - a.popularity).slice(0, 20)\<close>;
  the sort is stable, as a sort by the negated popularity is.
\<close>

definition topMovies :: "TMDBPersonCredits \<Rightarrow> TMDBCastCredit list" where
  "topMovies filmography =
     take 20 (sort_key (\<lambda>m. - cc_popularity m)
       (filter (\<lambda>m. truthy (cc_release_date m)) (pc_cast filmography)))"

definition movieYearOf :: "TMDBCastCredit \<Rightarrow> js_number option" where
  "movieYearOf m =
     (case cc_release_date m of
        None \<Rightarrow> None
      | Some d \<Rightarrow> if d = [] then None else Some (parseInt (take 4 d)))"

text \<open>
  The loop over \<open>credits.cast.slice(0, 30)\<close> for one movie (lines 92 to 101): a cast
  member other than the expanding actor gets an entry unless it has one.
\<close>

fun addCast :: "int \<Rightarrow> TMDBCastCredit \<Rightarrow> TMDBCastMember list \<Rightarrow> costars \<Rightarrow> costars" where
  "addCast a m [] coStars = coStars"
| "addCast a m (castMember # rest) coStars =
     (if cm_id castMember \<noteq> a \<and> map_of coStars (cm_id castMember) = None
      then addCast a m rest
             (coStars @ [(cm_id castMember,
                \<lparr>movieId = cc_id m, movieTitle = cc_title m, movieYear = movieYearOf m\<rparr>)])
      else addCast a m rest coStars)"

text \<open>
  The loop over \<open>topMovies\<close> (lines 82 to 106): a movie whose cast cannot be fetched
  is skipped (the \<open>catch\<close> only warns).
\<close>

fun scanMovies :: "env \<Rightarrow> int \<Rightarrow> TMDBCastCredit list \<Rightarrow> world \<times> costars \<Rightarrow> world \<times> costars" where
  "scanMovies e a [] (w, coStars) = (w, coStars)"
| "scanMovies e a (m # rest) (w, coStars) =
     (let w1 = issue (MovieCredits (cc_id m)) w in
      case getMovieCredits e (cc_id m) of
        Inl err \<Rightarrow> scanMovies e a rest (w1, coStars)
      | Inr credits \<Rightarrow> scanMovies e a rest (w1, addCast a m (take 30 (mc_cast credits)) coStars))"

text \<open>
  \<open>getCoStars\<close> (lines 66 to 109). The filmography is fetched outside the \<open>try\<close>: its
  failure ends the call.
\<close>

definition getCoStars :: "env \<Rightarrow> world \<Rightarrow> int \<Rightarrow> world \<times> (error + costars)" where
  "getCoStars e w a =
     (case getFilmography e w a of
        (w1, Inl err) \<Rightarrow> (w1, Inl err)
      | (w1, Inr filmography) \<Rightarrow>
          (case scanMovies e a (topMovies filmography) (w1, []) of
             (w2, coStars) \<Rightarrow> (w2, Inr coStars)))"

subsection \<open>The bidirectional search\<close>

record search_state =
  visitedFromA :: "int \<rightharpoonup> BFSNode"
  visitedFromB :: "int \<rightharpoonup> BFSNode"
  queueA :: "BFSNode list"
  queueB :: "BFSNode list"
  degreesFromA :: nat
  degreesFromB :: nat
  meetingPoint :: "MeetingPoint option"

definition nodeMovieOf :: "CoStarInfo \<Rightarrow> NodeMovie" where
  "nodeMovieOf movieInfo =
     \<lparr>nm_id = movieId movieInfo, nm_title = movieTitle movieInfo, nm_year = movieYear movieInfo\<rparr>"

definition initialState :: "int \<Rightarrow> int \<Rightarrow> search_state" where
  "initialState actorAId actorBId =
     \<lparr>visitedFromA = [actorAId \<mapsto> BFSNode actorAId None None],
      visitedFromB = [actorBId \<mapsto> BFSNode actorBId None None],
      queueA = [BFSNode actorAId None None],
      queueB = [BFSNode actorBId None None],
      degreesFromA = 0,
      degreesFromB = 0,
      meetingPoint = None\<rparr>"

text \<open>
  The loop over the co-stars of \<open>current\<close> on the A side (lines 183 to 221): a
  co-star the B side has visited is the meeting point and ends the loop, any other
  co-star is queued unless the A side has it already. The loop on the B side (lines
  238 to 276) is the same with the sides exchanged.
\<close>

fun scanCoStarsA :: "BFSNode \<Rightarrow> costars \<Rightarrow> search_state \<Rightarrow> search_state" where
  "scanCoStarsA current [] s = s"
| "scanCoStarsA current ((coStarId, movieInfo) # rest) s =
     (case visitedFromB s coStarId of
        Some nodeB \<Rightarrow>
          s\<lparr>meetingPoint :=
               Some \<lparr>mp_actorId = coStarId,
                     movieFromA = Some (nodeMovieOf movieInfo),
                     movieFromB = movie nodeB\<rparr>,
            visitedFromA :=
               (visitedFromA s)(coStarId \<mapsto>
                  BFSNode coStarId (Some current) (Some (nodeMovieOf movieInfo)))\<rparr>
      | None \<Rightarrow>
          (if visitedFromA s coStarId = None
           then scanCoStarsA current rest
                  (s\<lparr>visitedFromA :=
                       (visitedFromA s)(coStarId \<mapsto>
                          BFSNode coStarId (Some current) (Some (nodeMovieOf movieInfo))),
                     queueA :=
                       queueA s @ [BFSNode coStarId (Some current) (Some (nodeMovieOf movieInfo))]\<rparr>)
           else scanCoStarsA current rest s))"

fun scanCoStarsB :: "BFSNode \<Rightarrow> costars \<Rightarrow> search_state \<Rightarrow> search_state" where
  "scanCoStarsB current [] s = s"
| "scanCoStarsB current ((coStarId, movieInfo) # rest) s =
     (case visitedFromA s coStarId of
        Some nodeA \<Rightarrow>
          s\<lparr>meetingPoint :=
               Some \<lparr>mp_actorId = coStarId,
                     movieFromA = movie nodeA,
                     movieFromB = Some (nodeMovieOf movieInfo)\<rparr>,
            visitedFromB :=
               (visitedFromB s)(coStarId \<mapsto>
                  BFSNode coStarId (Some current) (Some (nodeMovieOf movieInfo)))\<rparr>
      | None \<Rightarrow>
          (if visitedFromB s coStarId = None
           then scanCoStarsB current rest
                  (s\<lparr>visitedFromB :=
                       (visitedFromB s)(coStarId \<mapsto>
                          BFSNode coStarId (Some current) (Some (nodeMovieOf movieInfo))),
                     queueB :=
                       queueB s @ [BFSNode coStarId (Some current) (Some (nodeMovieOf movieInfo))]\<rparr>)
           else scanCoStarsB current rest s))"

text \<open>
  One level (lines 179 to 224 and 234 to 279): \<open>for (i = 0; i < currentLevelSize; i++)\<close>,
  the count taken before the first node is dequeued. \<open>queue.shift()!\<close> on an empty
  queue is \<open>undefined\<close>, whose \<open>actorId\<close> cannot be read.
\<close>

fun expandLevelA :: "env \<Rightarrow> nat \<Rightarrow> world \<times> search_state \<Rightarrow> world \<times> (error + search_state)" where
  "expandLevelA e 0 (w, s) = (w, Inr s)"
| "expandLevelA e (Suc n) (w, s) =
     (case queueA s of
        [] \<Rightarrow> (w, Inl TypeError)
      | current # q \<Rightarrow>
          (case getCoStars e w (actorId current) of
             (w1, Inl err) \<Rightarrow> (w1, Inl err)
           | (w1, Inr coStars) \<Rightarrow>
               (let s1 = scanCoStarsA current coStars (s\<lparr>queueA := q\<rparr>) in
                if meetingPoint s1 \<noteq> None then (w1, Inr s1)
                else expandLevelA e n (w1, s1))))"

fun expandLevelB :: "env \<Rightarrow> nat \<Rightarrow> world \<times> search_state \<Rightarrow> world \<times> (error + search_state)" where
  "expandLevelB e 0 (w, s) = (w, Inr s)"
| "expandLevelB e (Suc n) (w, s) =
     (case queueB s of
        [] \<Rightarrow> (w, Inl TypeError)
      | current # q \<Rightarrow>
          (case getCoStars e w (actorId current) of
             (w1, Inl err) \<Rightarrow> (w1, Inl err)
           | (w1, Inr coStars) \<Rightarrow>
               (let s1 = scanCoStarsB current coStars (s\<lparr>queueB := q\<rparr>) in
                if meetingPoint s1 \<noteq> None then (w1, Inr s1)
                else expandLevelB e n (w1, s1))))"

text \<open>
  The guards of the two blocks of the loop body (lines 175 and 230), and the blocks:
  the degree counter of the side is incremented, then the level is expanded.
\<close>

definition runsA :: "search_state \<Rightarrow> bool" where
  "runsA s = (queueA s \<noteq> [] \<and> degreesFromA s \<le> degreesFromB s)"

definition runsB :: "search_state \<Rightarrow> bool" where
  "runsB s = (queueB s \<noteq> [] \<and> meetingPoint s = None)"

definition expandFromA :: "env \<Rightarrow> world \<times> search_state \<Rightarrow> world \<times> (error + search_state)" where
  "expandFromA e ws =
     (case ws of (w, s) \<Rightarrow>
        if runsA s
        then expandLevelA e (length (queueA s)) (w, s\<lparr>degreesFromA := degreesFromA s + 1\<rparr>)
        else (w, Inr s))"

definition expandFromB :: "env \<Rightarrow> world \<times> search_state \<Rightarrow> world \<times> (error + search_state)" where
  "expandFromB e ws =
     (case ws of (w, s) \<Rightarrow>
        if runsB s
        then expandLevelB e (length (queueB s)) (w, s\<lparr>degreesFromB := degreesFromB s + 1\<rparr>)
        else (w, Inr s))"

text \<open>
  One pass through the body of the \<open>while\<close> loop, after the test of the degree
  bound: the A block, then the B block, each with its \<open>if (meetingPoint) break\<close>
  inside the block.
\<close>

datatype flow = Break | Continue

definition loopBody ::
  "env \<Rightarrow> world \<times> search_state \<Rightarrow> world \<times> (error + flow \<times> search_state)" where
  "loopBody e ws =
     (case expandFromA e ws of
        (w1, Inl err) \<Rightarrow> (w1, Inl err)
      | (w1, Inr s1) \<Rightarrow>
          if runsA (snd ws) \<and> meetingPoint s1 \<noteq> None then (w1, Inr (Break, s1))
          else
            (case expandFromB e (w1, s1) of
               (w2, Inl err) \<Rightarrow> (w2, Inl err)
             | (w2, Inr s2) \<Rightarrow>
                 if runsB s1 \<and> meetingPoint s2 \<noteq> None then (w2, Inr (Break, s2))
                 else (w2, Inr (Continue, s2))))"

text \<open>
  The \<open>while\<close> loop. Nothing bounds the number of its iterations, so the model counts
  them down: with no iteration left the answer is \<open>None\<close>, the loop has not
  returned. A returned \<open>Inl\<close> is the exception that ended the call, a returned
  \<open>Inr\<close> the state at the \<open>break\<close> or at the failed loop test.
\<close>

fun bfsLoop ::
  "nat \<Rightarrow> env \<Rightarrow> int \<Rightarrow> world \<times> search_state \<Rightarrow> world \<times> (error + search_state) option" where
  "bfsLoop 0 e maxDeg (w, s) = (w, None)"
| "bfsLoop (Suc fuel) e maxDeg (w, s) =
     (if queueA s = [] \<and> queueB s = [] then (w, Some (Inr s))
      else if maxDeg \<le> int (degreesFromA s + degreesFromB s) then (w, Some (Inr s))
      else
        (case loopBody e (w, s) of
           (w1, Inl err) \<Rightarrow> (w1, Some (Inl err))
         | (w1, Inr (Break, s1)) \<Rightarrow> (w1, Some (Inr s1))
         | (w1, Inr (Continue, s1)) \<Rightarrow> bfsLoop fuel e maxDeg (w1, s1)))"

text \<open>The test of the loop: a queue is not empty and the degree bound is not reached.\<close>

definition loopTest :: "int \<Rightarrow> search_state \<Rightarrow> bool" where
  "loopTest d s =
     (\<not> (queueA s = [] \<and> queueB s = []) \<and> \<not> d \<le> int (degreesFromA s + degreesFromB s))"

text \<open>
  A state in which the loop goes on although neither block runs: the A queue is not
  empty but \<open>degreesFromA > degreesFromB\<close>, and the B queue is empty.
\<close>

definition stuck :: "int \<Rightarrow> search_state \<Rightarrow> bool" where
  "stuck d s = (loopTest d s \<and> \<not> runsA s \<and> \<not> runsB s)"

subsection \<open>Path reconstruction and enrichment\<close>

text \<open>
  The walk from a node to the root of its tree (lines 292 to 305). The A half of the
  path is the walk from the meeting node, reversed by \<open>unshift\<close>; the B half is the
  walk from the parent of the meeting node on the B side.
\<close>

fun walkUp :: "BFSNode \<Rightarrow> (int \<times> NodeMovie option) list" where
  "walkUp (BFSNode a p m) = (a, m) # (case p of None \<Rightarrow> [] | Some q \<Rightarrow> walkUp q)"

definition pathFromA :: "search_state \<Rightarrow> MeetingPoint \<Rightarrow> (int \<times> NodeMovie option) list" where
  "pathFromA s mp =
     (case visitedFromA s (mp_actorId mp) of None \<Rightarrow> [] | Some nodeA \<Rightarrow> rev (walkUp nodeA))"

definition pathFromB :: "search_state \<Rightarrow> MeetingPoint \<Rightarrow> (int \<times> NodeMovie option) list" where
  "pathFromB s mp =
     (case visitedFromB s (mp_actorId mp) of
        None \<Rightarrow> []
      | Some n \<Rightarrow> (case parent n of None \<Rightarrow> [] | Some nodeB \<Rightarrow> walkUp nodeB))"

definition combinedPath :: "search_state \<Rightarrow> MeetingPoint \<Rightarrow> (int \<times> NodeMovie option) list" where
  "combinedPath s mp = pathFromA s mp @ pathFromB s mp"

text \<open>
  The detail lookups of lines 320 to 335: a failed lookup gives the placeholder
  \<open>Actor <id>\<close>, alive and without a picture.
\<close>

record ActorInfo =
  ai_name :: string
  ai_profilePath :: "string option"
  ai_isDeceased :: bool

fun fetchActorDetails ::
  "env \<Rightarrow> int list \<Rightarrow> world \<times> (int \<rightharpoonup> ActorInfo) \<Rightarrow> world \<times> (int \<rightharpoonup> ActorInfo)" where
  "fetchActorDetails e [] (w, actorDetails) = (w, actorDetails)"
| "fetchActorDetails e (a # rest) (w, actorDetails) =
     (let w1 = issue (PersonDetails a) w in
      case getPersonDetails e a of
        Inr person \<Rightarrow>
          fetchActorDetails e rest
            (w1, actorDetails(a \<mapsto>
               \<lparr>ai_name = person_name person, ai_profilePath = profile_path person,
                ai_isDeceased = truthy (deathday person)\<rparr>))
      | Inl err \<Rightarrow>
          fetchActorDetails e rest
            (w1, actorDetails(a \<mapsto>
               \<lparr>ai_name = ''Actor '' @ show_int a, ai_profilePath = None,
                ai_isDeceased = False\<rparr>)))"

text \<open>The connecting movie of a segment: the movie stored on the next segment, if any.\<close>

definition connectingMovie :: "(int \<times> NodeMovie option) list \<Rightarrow> PathMovie option" where
  "connectingMovie following =
     (case following of
        [] \<Rightarrow> None
      | nextSegment # _ \<Rightarrow>
          (case snd nextSegment of
             None \<Rightarrow> None
           | Some m \<Rightarrow>
               Some \<lparr>pm_id = nm_id m, pm_title = nm_title m, pm_year = nm_year m,
                     posterPath = None\<rparr>))"

fun buildFinalPath ::
  "(int \<rightharpoonup> ActorInfo) \<Rightarrow> (int \<times> NodeMovie option) list \<Rightarrow> error + PathSegment list" where
  "buildFinalPath actorDetails [] = Inr []"
| "buildFinalPath actorDetails (segment # following) =
     (case actorDetails (fst segment) of
        None \<Rightarrow> Inl TypeError
      | Some actorInfo \<Rightarrow>
          (case buildFinalPath actorDetails following of
             Inl err \<Rightarrow> Inl err
           | Inr segments \<Rightarrow>
               Inr (\<lparr>actor = \<lparr>pa_id = fst segment, pa_name = ai_name actorInfo,
                               profilePath = ai_profilePath actorInfo,
                               isDeceased = ai_isDeceased actorInfo\<rparr>,
                      seg_movie = connectingMovie following\<rparr> # segments)))"

definition toDeceasedOnPath :: "DeceasedPersonRecord \<Rightarrow> DeceasedOnPath" where
  "toDeceasedOnPath d =
     \<lparr>dp_id = tmdb_id d, dp_name = db_name d, dp_deathday = db_deathday d,
      causeOfDeath = cause_of_death d, ageAtDeath = age_at_death d\<rparr>"

text \<open>
  Everything after the loop, for a meeting point that was found (lines 291 to 398).
  The lookup in the store of deceased persons is awaited outside any \<open>try\<close>.
\<close>

definition finishSearch ::
  "env \<Rightarrow> world \<Rightarrow> search_state \<Rightarrow> MeetingPoint \<Rightarrow> world \<times> (error + ConnectionResult option)" where
  "finishSearch e w s mp =
     (let combined = combinedPath s mp;
          actorIds = map fst combined
      in case fetchActorDetails e actorIds (w, Map.empty) of
        (w1, actorDetails) \<Rightarrow>
          (case buildFinalPath actorDetails combined of
             Inl err \<Rightarrow> (w1, Inl err)
           | Inr finalPath \<Rightarrow>
               (let deceasedActorIds =
                      map (\<lambda>p. pa_id (actor p)) (filter (\<lambda>p. isDeceased (actor p)) finalPath);
                    w2 = issue (DeceasedPersons deceasedActorIds) w1
                in case getDeceasedPersons e deceasedActorIds of
                     Inl err \<Rightarrow> (w2, Inl err)
                   | Inr deceasedInfoMap \<Rightarrow>
                       (clearFilmographyCache w2,
                        Inr (Some
                          \<lparr>degrees = int (length finalPath) - 1,
                           path = finalPath,
                           totalDeceased = length (filter (\<lambda>p. isDeceased (actor p)) finalPath),
                           deceasedOnPath =
                             map toDeceasedOnPath
                               (List.map_filter deceasedInfoMap deceasedActorIds)\<rparr>)))))"

subsection \<open>The entry point\<close>

record options =
  maxDegrees :: "int option"

text \<open>
  \<open>findConnection\<close> (lines 120 to 399), given the number of loop iterations it may
  use. The answer \<open>None\<close> is a call that has not returned within them,
  \<open>Some (Inl err)\<close> a rejected promise, \<open>Some (Inr None)\<close> the result \<open>null\<close> (no
  connection). The identity call neither clears the cache nor catches a failed
  detail lookup.
\<close>

definition findConnection ::
  "nat \<Rightarrow> env \<Rightarrow> world \<Rightarrow> int \<Rightarrow> int \<Rightarrow> options
     \<Rightarrow> world \<times> (error + ConnectionResult option) option" where
  "findConnection fuel e w actorAId actorBId opts =
     (let maxDeg = (case maxDegrees opts of None \<Rightarrow> 6 | Some d \<Rightarrow> d) in
      if actorAId = actorBId then
        (let w1 = issue (PersonDetails actorAId) w in
         case getPersonDetails e actorAId of
           Inl err \<Rightarrow> (w1, Some (Inl err))
         | Inr person \<Rightarrow>
             (w1, Some (Inr (Some
               \<lparr>degrees = 0,
                path = [\<lparr>actor = \<lparr>pa_id = person_id person, pa_name = person_name person,
                                  profilePath = profile_path person,
                                  isDeceased = truthy (deathday person)\<rparr>,
                         seg_movie = None\<rparr>],
                totalDeceased = (if truthy (deathday person) then 1 else 0),
                deceasedOnPath = []\<rparr>))))
      else
        (case bfsLoop fuel e maxDeg (clearFilmographyCache w, initialState actorAId actorBId) of
           (w1, None) \<Rightarrow> (w1, None)
         | (w1, Some (Inl err)) \<Rightarrow> (w1, Some (Inl err))
         | (w1, Some (Inr s)) \<Rightarrow>
             (case meetingPoint s of
                None \<Rightarrow> (clearFilmographyCache w1, Some (Inr None))
              | Some mp \<Rightarrow>
                  (case finishSearch e w1 s mp of (w2, r) \<Rightarrow> (w2, Some r)))))"

section \<open>Notions for stating the properties\<close>

subsection \<open>Views of a result and of the log\<close>

text \<open>The actor id and the id of the connecting movie of every segment of a path.\<close>

definition pathView :: "ConnectionResult \<Rightarrow> (int \<times> int option) list" where
  "pathView r = map (\<lambda>p. (pa_id (actor p), map_option pm_id (seg_movie p))) (path r)"

text \<open>The external calls of one kind in a log.\<close>

definition creditFetches :: "call list \<Rightarrow> int list" where
  "creditFetches cs = concat (map (\<lambda>c. case c of PersonCredits a \<Rightarrow> [a] | _ \<Rightarrow> []) cs)"

definition castFetches :: "call list \<Rightarrow> int list" where
  "castFetches cs = concat (map (\<lambda>c. case c of MovieCredits m \<Rightarrow> [m] | _ \<Rightarrow> []) cs)"

definition storeLookups :: "call list \<Rightarrow> int list list" where
  "storeLookups cs = concat (map (\<lambda>c. case c of DeceasedPersons ids \<Rightarrow> [ids] | _ \<Rightarrow> []) cs)"

text \<open>The calls issued after the first \<open>n\<close> of the log.\<close>

definition callsSince :: "nat \<Rightarrow> world \<Rightarrow> call list" where
  "callsSince n w = drop n (calls w)"

text \<open>
  The filmography fetches issued after the first \<open>n\<close> calls of the log are for
  pairwise different actors.
\<close>

definition fetchedOnce :: "nat \<Rightarrow> world \<Rightarrow> bool" where
  "fetchedOnce n v = (n \<le> length (calls v) \<and> distinct (creditFetches (drop n (calls v))))"

text \<open>Moreover each of them is still in the cache.\<close>

definition fetchedCached :: "nat \<Rightarrow> world \<Rightarrow> bool" where
  "fetchedCached n v =
     (fetchedOnce n v \<and> set (creditFetches (drop n (calls v))) \<subseteq> dom (filmographyCache v))"

text \<open>
  Every filmography fetch issued after the first \<open>n\<close> calls of the log was answered.
\<close>

definition fetchesOK :: "env \<Rightarrow> nat \<Rightarrow> world \<Rightarrow> bool" where
  "fetchesOK e n v =
     (n \<le> length (calls v)
      \<and> (\<forall>x\<in>set (creditFetches (drop n (calls v))). \<not> isl (getPersonCredits e x)))"

text \<open>
  The last filmography fetch issued after the first \<open>n\<close> calls of the log was
  rejected with \<open>err\<close>, and every earlier one was answered.
\<close>

definition fetchFailed :: "env \<Rightarrow> nat \<Rightarrow> world \<Rightarrow> error \<Rightarrow> bool" where
  "fetchFailed e n v err =
     (n \<le> length (calls v)
      \<and> (\<exists>pre x. creditFetches (drop n (calls v)) = pre @ [x]
             \<and> (\<forall>y\<in>set pre. \<not> isl (getPersonCredits e y))
             \<and> getPersonCredits e x = Inl err))"

text \<open>No lookup in the store of deceased persons was issued after the first \<open>n\<close> calls.\<close>

definition noLookup :: "nat \<Rightarrow> world \<Rightarrow> bool" where
  "noLookup n v = (n \<le> length (calls v) \<and> storeLookups (drop n (calls v)) = [])"

subsection \<open>The expander\<close>

text \<open>The entry the expander stores for a co-star found in the cast of movie \<open>m\<close>.\<close>

definition coStarInfoOf :: "TMDBCastCredit \<Rightarrow> CoStarInfo" where
  "coStarInfoOf m = \<lparr>movieId = cc_id m, movieTitle = cc_title m, movieYear = movieYearOf m\<rparr>"

text \<open>
  The cast the expander looks at for a movie: the first 30 billed actors, and nobody
  when the cast cannot be fetched.
\<close>

definition consideredCast :: "env \<Rightarrow> TMDBCastCredit \<Rightarrow> int list" where
  "consideredCast e m =
     (case getMovieCredits e (cc_id m) of
        Inl err \<Rightarrow> []
      | Inr credits \<Rightarrow> map cm_id (take 30 (mc_cast credits)))"

subsection \<open>Providers without the failures that are caught\<close>

text \<open>The details the enrichment stage puts in place of an actor it cannot look up.\<close>

definition placeholderPerson :: "int \<Rightarrow> TMDBPerson" where
  "placeholderPerson a =
     \<lparr>person_id = a, person_name = ''Actor '' @ show_int a, profile_path = None, deathday = None\<rparr>"

text \<open>
  The providers \<open>e\<close> with every failure of a cast fetch replaced by an empty cast
  and every failure of a detail lookup replaced by the placeholder.
\<close>

definition tolerant :: "env \<Rightarrow> env" where
  "tolerant e =
     e\<lparr>getMovieCredits :=
         (\<lambda>m. case getMovieCredits e m of Inl err \<Rightarrow> Inr \<lparr>mc_cast = []\<rparr> | Inr credits \<Rightarrow> Inr credits),
       getPersonDetails :=
         (\<lambda>a. case getPersonDetails e a of Inl err \<Rightarrow> Inr (placeholderPerson a) | Inr person \<Rightarrow> Inr person)\<rparr>"

subsection \<open>The invariant of the two search trees\<close>

text \<open>The actor ids from a node up to the root of its tree.\<close>

definition chainIds :: "BFSNode \<Rightarrow> int list" where
  "chainIds n = map fst (walkUp n)"

text \<open>A node whose chain of ancestors repeats no actor and stays inside the visited map.\<close>

definition nodeOK :: "(int \<rightharpoonup> BFSNode) \<Rightarrow> BFSNode \<Rightarrow> bool" where
  "nodeOK visited n = (distinct (chainIds n) \<and> set (chainIds n) \<subseteq> dom visited)"

text \<open>
  One side of the search: every visited actor is mapped to a node of its own id, and
  the visited and the queued nodes are well-formed.
\<close>

definition sideOK :: "(int \<rightharpoonup> BFSNode) \<Rightarrow> BFSNode list \<Rightarrow> bool" where
  "sideOK visited queue =
     ((\<forall>k n. visited k = Some n \<longrightarrow> actorId n = k \<and> nodeOK visited n)
      \<and> (\<forall>n\<in>set queue. nodeOK visited n))"

text \<open>
  Both sides are well-formed, and the two visited maps share no actor before the
  meeting point is found and exactly the meeting actor afterwards.
\<close>

definition searchInv :: "search_state \<Rightarrow> bool" where
  "searchInv s =
     (sideOK (visitedFromA s) (queueA s) \<and> sideOK (visitedFromB s) (queueB s)
      \<and> dom (visitedFromA s) \<inter> dom (visitedFromB s)
          = (case meetingPoint s of None \<Rightarrow> {} | Some mp \<Rightarrow> {mp_actorId mp}))"

section \<open>Concrete providers\<close>

text \<open>A world with an empty cache and an empty log.\<close>

definition freshWorld :: world where
  "freshWorld = \<lparr>filmographyCache = Map.empty, calls = []\<rparr>"

text \<open>A dated filmography entry, an undated one, a cast, and the details of a living actor.\<close>

definition film :: "int \<Rightarrow> rat \<Rightarrow> TMDBCastCredit" where
  "film i p =
     \<lparr>cc_id = i, cc_title = ''Movie'', cc_release_date = Some ''1999-03-31'', cc_popularity = p\<rparr>"

definition undated :: "int \<Rightarrow> rat \<Rightarrow> TMDBCastCredit" where
  "undated i p = (film i p)\<lparr>cc_release_date := None\<rparr>"

definition castOf :: "int list \<Rightarrow> TMDBMovieCredits" where
  "castOf ids = \<lparr>mc_cast = map (\<lambda>i. \<lparr>cm_id = i\<rparr>) ids\<rparr>"

definition plainPerson :: "int \<Rightarrow> TMDBPerson" where
  "plainPerson a = \<lparr>person_id = a, person_name = ''Name'', profile_path = None, deathday = None\<rparr>"

text \<open>A world whose cache holds a filmography of actor 1 from an earlier search.\<close>

definition staleWorld :: world where
  "staleWorld = \<lparr>filmographyCache = [1 \<mapsto> \<lparr>pc_cast = [film 10 1]\<rparr>], calls = [PersonCredits 1]\<rparr>"

text \<open>
  The two-hop graph: actors 1 and 3 share movie 10, actors 3 and 2 share movie 20,
  and there is no other link.
\<close>

definition twoHopGraph :: env where
  "twoHopGraph =
     \<lparr>getPersonCredits = (\<lambda>a.
         if a = 1 then Inr \<lparr>pc_cast = [film 10 1]\<rparr>
         else if a = 3 then Inr \<lparr>pc_cast = [film 10 1, film 20 1]\<rparr>
         else if a = 2 then Inr \<lparr>pc_cast = [film 20 1]\<rparr>
         else Inr \<lparr>pc_cast = []\<rparr>),
      getMovieCredits = (\<lambda>m.
         if m = 10 then Inr (castOf [1, 3])
         else if m = 20 then Inr (castOf [3, 2])
         else Inr (castOf [])),
      getPersonDetails = (\<lambda>a. Inr (plainPerson a)),
      getDeceasedPersons = (\<lambda>ids. Inr Map.empty)\<rparr>"

text \<open>The same providers, where every actor has a day of death.\<close>

definition lateActor :: env where
  "lateActor = twoHopGraph\<lparr>getPersonDetails := (\<lambda>a. Inr ((plainPerson a)\<lparr>deathday := Some ''2001-02-03''\<rparr>))\<rparr>"

text \<open>The two-hop graph, where the filmography of actor \<open>x\<close> cannot be fetched.\<close>

definition filmographyDown :: "int \<Rightarrow> env" where
  "filmographyDown x =
     twoHopGraph\<lparr>getPersonCredits :=
       (\<lambda>a. if a = x then Inl ProviderUnavailable else getPersonCredits twoHopGraph a)\<rparr>"

text \<open>The two-hop graph, where the store of deceased persons cannot be reached.\<close>

definition storeDown :: env where
  "storeDown = twoHopGraph\<lparr>getDeceasedPersons := (\<lambda>ids. Inl StoreUnavailable)\<rparr>"

text \<open>The two-hop graph, where no detail lookup succeeds.\<close>

definition detailsDown :: env where
  "detailsDown = twoHopGraph\<lparr>getPersonDetails := (\<lambda>a. Inl ProviderUnavailable)\<rparr>"

text \<open>
  The two-hop graph, where actor 1 has one more movie, 30, whose cast cannot be
  fetched, and where no detail lookup succeeds.
\<close>

definition castAndDetailsDown :: env where
  "castAndDetailsDown =
     twoHopGraph\<lparr>getPersonCredits :=
         (\<lambda>a. if a = 1 then Inr \<lparr>pc_cast = [film 30 2, film 10 1]\<rparr>
              else getPersonCredits twoHopGraph a),
       getMovieCredits :=
         (\<lambda>m. if m = 30 then Inl ProviderUnavailable else getMovieCredits twoHopGraph m),
       getPersonDetails := (\<lambda>a. Inl ProviderUnavailable)\<rparr>"

text \<open>
  Actors 1 and 3 share movie 10, actors 3 and 4 share movie 20, and actor 2 has no
  movie at all.
\<close>

definition isolatedTarget :: env where
  "isolatedTarget =
     \<lparr>getPersonCredits = (\<lambda>a.
         if a = 1 then Inr \<lparr>pc_cast = [film 10 1]\<rparr>
         else if a = 3 then Inr \<lparr>pc_cast = [film 10 1, film 20 1]\<rparr>
         else if a = 4 then Inr \<lparr>pc_cast = [film 20 1]\<rparr>
         else Inr \<lparr>pc_cast = []\<rparr>),
      getMovieCredits = (\<lambda>m.
         if m = 10 then Inr (castOf [1, 3])
         else if m = 20 then Inr (castOf [3, 4])
         else Inr (castOf [])),
      getPersonDetails = (\<lambda>a. Inr (plainPerson a)),
      getDeceasedPersons = (\<lambda>ids. Inr Map.empty)\<rparr>"

text \<open>
  An actor with three dated movies and an undated one; actor 9 is in the cast of the
  most and of the least popular dated movie.
\<close>

definition precedenceFilms :: TMDBPersonCredits where
  "precedenceFilms = \<lparr>pc_cast = [film 30 2, undated 60 100, film 40 9, film 50 5]\<rparr>"

definition precedenceGraph :: env where
  "precedenceGraph =
     \<lparr>getPersonCredits = (\<lambda>a. if a = 1 then Inr precedenceFilms else Inr \<lparr>pc_cast = []\<rparr>),
      getMovieCredits = (\<lambda>m.
         if m = 30 then Inr (castOf [1, 9])
         else if m = 40 then Inr (castOf [1, 9, 8])
         else if m = 50 then Inr (castOf [8])
         else if m = 60 then Inr (castOf [9])
         else Inl ProviderUnavailable),
      getPersonDetails = (\<lambda>a. Inr (plainPerson a)),
      getDeceasedPersons = (\<lambda>ids. Inr Map.empty)\<rparr>"

text \<open>
  An actor with 25 dated movies of popularity 101 to 125 and an undated one of
  popularity 1000; the cast of movie 125 has 31 members.
\<close>

definition manyFilms :: TMDBPersonCredits where
  "manyFilms = \<lparr>pc_cast = undated 99 1000 # map (\<lambda>i. film i (of_int i)) [101..125]\<rparr>"

definition manyFilmsGraph :: env where
  "manyFilmsGraph =
     \<lparr>getPersonCredits = (\<lambda>a. if a = 1 then Inr manyFilms else Inr \<lparr>pc_cast = []\<rparr>),
      getMovieCredits = (\<lambda>m. if m = 125 then Inr (castOf [1..31]) else Inr (castOf [1, m])),
      getPersonDetails = (\<lambda>a. Inr (plainPerson a)),
      getDeceasedPersons = (\<lambda>ids. Inr Map.empty)\<rparr>"

section \<open>Properties\<close>

subsection \<open>The log of external calls\<close>

lemma calls_issue [simp]: "calls (issue c w) = calls w @ [c]"
  by (simp add: issue_def)

lemma cache_issue [simp]: "filmographyCache (issue c w) = filmographyCache w"
  by (simp add: issue_def)

lemma calls_clear [simp]: "calls (clearFilmographyCache w) = calls w"
  by (simp add: clearFilmographyCache_def)

lemma cache_clear [simp]: "filmographyCache (clearFilmographyCache w) = Map.empty"
  by (simp add: clearFilmographyCache_def)

lemma creditFetches_append [simp]:
  "creditFetches (xs @ ys) = creditFetches xs @ creditFetches ys"
  by (simp add: creditFetches_def)

lemma creditFetches_simps [simp]:
  "creditFetches [] = []" "creditFetches [PersonCredits a] = [a]"
  "creditFetches [MovieCredits m] = []" "creditFetches [PersonDetails a] = []"
  "creditFetches [DeceasedPersons ids] = []"
  by (simp_all add: creditFetches_def)

lemma creditFetches_MovieCredits [simp]:
  "creditFetches (map (\<lambda>m. MovieCredits (g m)) ms) = []"
  by (induction ms) (simp_all add: creditFetches_def)

lemma creditFetches_PersonDetails [simp]:
  "creditFetches (map (\<lambda>x. PersonDetails (g x)) xs) = []"
  by (induction xs) (simp_all add: creditFetches_def)

lemma storeLookups_append [simp]: "storeLookups (xs @ ys) = storeLookups xs @ storeLookups ys"
  by (simp add: storeLookups_def)

lemma storeLookups_single [simp]:
  "storeLookups [PersonCredits a] = []" "storeLookups [MovieCredits m] = []"
  "storeLookups [PersonDetails a] = []" "storeLookups [DeceasedPersons ids] = [ids]"
  "storeLookups [] = []"
  by (simp_all add: storeLookups_def)

lemma fetchActorDetails_calls:
  "calls (fst (fetchActorDetails e ids (w, d))) = calls w @ map PersonDetails ids"
proof (induction ids arbitrary: w d)
  case Nil
  then show ?case by simp
next
  case (Cons a ids)
  then show ?case
    by (cases "getPersonDetails e a") (simp_all add: Let_def)
qed

subsection \<open>The loop and the entry point, case by case\<close>

lemma bfsLoop_exit:
  "\<not> loopTest d s \<Longrightarrow> bfsLoop (Suc fuel) e d (w, s) = (w, Some (Inr s))"
  unfolding loopTest_def by (auto simp del: of_nat_add)

lemma bfsLoop_iterate:
  "loopTest d s \<Longrightarrow>
   bfsLoop (Suc fuel) e d (w, s) =
     (case loopBody e (w, s) of
        (w1, Inl err) \<Rightarrow> (w1, Some (Inl err))
      | (w1, Inr (Break, s1)) \<Rightarrow> (w1, Some (Inr s1))
      | (w1, Inr (Continue, s1)) \<Rightarrow> bfsLoop fuel e d (w1, s1))"
  unfolding loopTest_def by (auto simp del: of_nat_add)

lemma findConnection_same:
  "findConnection fuel e w x x opts =
     (issue (PersonDetails x) w,
      case getPersonDetails e x of
        Inl err \<Rightarrow> Some (Inl err)
      | Inr person \<Rightarrow>
          Some (Inr (Some
            \<lparr>degrees = 0,
             path = [\<lparr>actor = \<lparr>pa_id = person_id person, pa_name = person_name person,
                               profilePath = profile_path person,
                               isDeceased = truthy (deathday person)\<rparr>,
                      seg_movie = None\<rparr>],
             totalDeceased = (if truthy (deathday person) then 1 else 0),
             deceasedOnPath = []\<rparr>)))"
  by (simp add: findConnection_def split: sum.splits)

lemma findConnection_distinct:
  "a \<noteq> b \<Longrightarrow>
   findConnection fuel e w a b opts =
     (case bfsLoop fuel e (case maxDegrees opts of None \<Rightarrow> 6 | Some d \<Rightarrow> d)
             (clearFilmographyCache w, initialState a b) of
        (w1, None) \<Rightarrow> (w1, None)
      | (w1, Some (Inl err)) \<Rightarrow> (w1, Some (Inl err))
      | (w1, Some (Inr s)) \<Rightarrow>
          (case meetingPoint s of
             None \<Rightarrow> (clearFilmographyCache w1, Some (Inr None))
           | Some mp \<Rightarrow> (case finishSearch e w1 s mp of (w2, r) \<Rightarrow> (w2, Some r))))"
  by (simp add: findConnection_def)

subsection \<open>Properties of the world along the search\<close>

text \<open>
  A property \<open>P\<close> of the world that every call of the expander keeps (or weakens to
  \<open>Q\<close> when the expander throws) is kept by a level, by the loop body and by the
  loop.
\<close>

lemma expandLevelA_world:
  assumes step: "\<And>w a w' r. P w \<Longrightarrow> getCoStars e w a = (w', r) \<Longrightarrow> (if isl r then Q w' else P w')"
    and weaken: "\<And>w. P w \<Longrightarrow> Q w"
  shows "P w \<Longrightarrow> expandLevelA e n (w, s) = (w', r) \<Longrightarrow> (if isl r then Q w' else P w')"
proof (induction n arbitrary: w s)
  case 0
  then show ?case by auto
next
  case (Suc n)
  show ?case
  proof (cases "queueA s")
    case Nil
    with Suc.prems weaken show ?thesis by auto
  next
    case (Cons current q)
    obtain w1 r1 where g: "getCoStars e w (actorId current) = (w1, r1)"
      by (cases "getCoStars e w (actorId current)")
    note st = step [OF Suc.prems(1) g]
    show ?thesis
    proof (cases r1)
      case (Inl err)
      with Suc.prems Cons g st show ?thesis by auto
    next
      case (Inr coStars)
      with st have p1: "P w1" by simp
      show ?thesis
      proof (cases "meetingPoint (scanCoStarsA current coStars (s\<lparr>queueA := q\<rparr>)) \<noteq> None")
        case True
        with Suc.prems Cons g Inr p1 show ?thesis by (auto simp: Let_def)
      next
        case False
        with Suc.prems(2) Cons g Inr
        have "expandLevelA e n (w1, scanCoStarsA current coStars (s\<lparr>queueA := q\<rparr>)) = (w', r)"
          by (simp add: Let_def)
        from Suc.IH [OF p1 this] show ?thesis .
      qed
    qed
  qed
qed

lemma expandLevelB_world:
  assumes step: "\<And>w a w' r. P w \<Longrightarrow> getCoStars e w a = (w', r) \<Longrightarrow> (if isl r then Q w' else P w')"
    and weaken: "\<And>w. P w \<Longrightarrow> Q w"
  shows "P w \<Longrightarrow> expandLevelB e n (w, s) = (w', r) \<Longrightarrow> (if isl r then Q w' else P w')"
proof (induction n arbitrary: w s)
  case 0
  then show ?case by auto
next
  case (Suc n)
  show ?case
  proof (cases "queueB s")
    case Nil
    with Suc.prems weaken show ?thesis by auto
  next
    case (Cons current q)
    obtain w1 r1 where g: "getCoStars e w (actorId current) = (w1, r1)"
      by (cases "getCoStars e w (actorId current)")
    note st = step [OF Suc.prems(1) g]
    show ?thesis
    proof (cases r1)
      case (Inl err)
      with Suc.prems Cons g st show ?thesis by auto
    next
      case (Inr coStars)
      with st have p1: "P w1" by simp
      show ?thesis
      proof (cases "meetingPoint (scanCoStarsB current coStars (s\<lparr>queueB := q\<rparr>)) \<noteq> None")
        case True
        with Suc.prems Cons g Inr p1 show ?thesis by (auto simp: Let_def)
      next
        case False
        with Suc.prems(2) Cons g Inr
        have "expandLevelB e n (w1, scanCoStarsB current coStars (s\<lparr>queueB := q\<rparr>)) = (w', r)"
          by (simp add: Let_def)
        from Suc.IH [OF p1 this] show ?thesis .
      qed
    qed
  qed
qed

lemma loopBody_world:
  assumes step: "\<And>w a w' r. P w \<Longrightarrow> getCoStars e w a = (w', r) \<Longrightarrow> (if isl r then Q w' else P w')"
    and weaken: "\<And>w. P w \<Longrightarrow> Q w"
    and p: "P w" and run: "loopBody e (w, s) = (w', r)"
  shows "if isl r then Q w' else P w'"
proof -
  obtain w1 r1 where a: "expandFromA e (w, s) = (w1, r1)"
    by (cases "expandFromA e (w, s)")
  have a1: "if isl r1 then Q w1 else P w1"
  proof (cases "runsA s")
    case True
    with a have "expandLevelA e (length (queueA s)) (w, s\<lparr>degreesFromA := degreesFromA s + 1\<rparr>) = (w1, r1)"
      by (simp add: expandFromA_def)
    from expandLevelA_world [of P e Q, OF step weaken p this] show ?thesis by simp
  next
    case False
    with a p show ?thesis by (auto simp: expandFromA_def)
  qed
  show ?thesis
  proof (cases r1)
    case (Inl err)
    with a a1 run show ?thesis by (auto simp: loopBody_def)
  next
    case (Inr s1)
    with a1 have p1: "P w1" by simp
    show ?thesis
    proof (cases "runsA s \<and> meetingPoint s1 \<noteq> None")
      case True
      with a Inr run p1 show ?thesis by (auto simp: loopBody_def)
    next
      case False
      obtain w2 r2 where b: "expandFromB e (w1, s1) = (w2, r2)"
        by (cases "expandFromB e (w1, s1)")
      have b1: "if isl r2 then Q w2 else P w2"
      proof (cases "runsB s1")
        case True
        with b have "expandLevelB e (length (queueB s1)) (w1, s1\<lparr>degreesFromB := degreesFromB s1 + 1\<rparr>) = (w2, r2)"
          by (simp add: expandFromB_def)
        from expandLevelB_world [of P e Q, OF step weaken p1 this] show ?thesis by simp
      next
        case False
        with b p1 show ?thesis by (auto simp: expandFromB_def)
      qed
      from False a Inr b run b1 show ?thesis
        by (cases r2) (auto simp: loopBody_def split: if_splits)
    qed
  qed
qed

lemma bfsLoop_world:
  assumes step: "\<And>w a w' r. P w \<Longrightarrow> getCoStars e w a = (w', r) \<Longrightarrow> (if isl r then Q w' else P w')"
    and weaken: "\<And>w. P w \<Longrightarrow> Q w"
  shows "P w \<Longrightarrow> bfsLoop fuel e d (w, s) = (w', r) \<Longrightarrow>
         (case r of None \<Rightarrow> P w' | Some x \<Rightarrow> if isl x then Q w' else P w')"
proof (induction fuel arbitrary: w s)
  case 0
  then show ?case by auto
next
  case (Suc fuel)
  obtain w1 r1 where b: "loopBody e (w, s) = (w1, r1)"
    by (cases "loopBody e (w, s)")
  note st = loopBody_world [of P e Q, OF step weaken Suc.prems(1) b]
  show ?case
  proof (cases "loopTest d s")
    case False
    with Suc.prems show ?thesis by (simp add: bfsLoop_exit del: bfsLoop.simps) auto
  next
    case True
    note run = Suc.prems(2) [unfolded bfsLoop_iterate [OF True]]
    show ?thesis
    proof (cases r1)
      case (Inl err)
      with run b st show ?thesis by auto
    next
      case (Inr fs)
      obtain fl s1 where fs: "fs = (fl, s1)" by (cases fs)
      from st Inr have p1: "P w1" by simp
      show ?thesis
      proof (cases fl)
        case Break
        with run b Inr fs p1 show ?thesis by auto
      next
        case Continue
        with run b Inr fs have "bfsLoop fuel e d (w1, s1) = (w', r)" by auto
        from Suc.IH [OF p1 this] show ?thesis .
      qed
    qed
  qed
qed

subsection \<open>The co-star expander\<close>

lemma addCast_lookup:
  "map_of (addCast a m cast cs) x =
     (case map_of cs x of
        Some i \<Rightarrow> Some i
      | None \<Rightarrow> if x \<noteq> a \<and> x \<in> cm_id ` set cast then Some (coStarInfoOf m) else None)"
  by (induction cast arbitrary: cs)
     (auto simp: coStarInfoOf_def map_add_def split: option.splits)

lemma addCast_keys:
  "distinct (map fst cs) \<Longrightarrow> distinct (map fst (addCast a m cast cs))"
  by (induction cast arbitrary: cs) (auto simp: map_of_eq_None_iff)

lemma addCast_entries:
  "set (addCast a m cast cs) \<subseteq> set cs \<union> (\<lambda>c. (cm_id c, coStarInfoOf m)) ` set cast"
proof (induction cast arbitrary: cs)
  case Nil
  then show ?case by simp
next
  case (Cons c cast)
  let ?new = "(cm_id c, \<lparr>movieId = cc_id m, movieTitle = cc_title m, movieYear = movieYearOf m\<rparr>)"
  show ?case
  proof (cases "cm_id c \<noteq> a \<and> map_of cs (cm_id c) = None")
    case True
    then have "addCast a m (c # cast) cs = addCast a m cast (cs @ [?new])" by simp
    with Cons.IH [of "cs @ [?new]"] show ?thesis
      by (fastforce simp: coStarInfoOf_def)
  next
    case False
    then have "addCast a m (c # cast) cs = addCast a m cast cs" by auto
    with Cons.IH [of cs] show ?thesis by fastforce
  qed
qed

lemma scanMovies_lookup:
  "map_of (snd (scanMovies e a ms (w, cs))) x =
     (case map_of cs x of
        Some i \<Rightarrow> Some i
      | None \<Rightarrow>
          if x = a then None
          else map_option coStarInfoOf (find (\<lambda>m. x \<in> set (consideredCast e m)) ms))"
proof (induction ms arbitrary: w cs)
  case Nil
  then show ?case by (simp split: option.splits)
next
  case (Cons m ms)
  show ?case
  proof (cases "getMovieCredits e (cc_id m)")
    case (Inl err)
    with Cons.IH show ?thesis
      by (simp add: Let_def consideredCast_def split: option.splits)
  next
    case (Inr credits)
    with Cons.IH show ?thesis
      by (auto simp: Let_def consideredCast_def addCast_lookup split: option.splits)
  qed
qed

lemma scanMovies_keys:
  "distinct (map fst cs) \<Longrightarrow> distinct (map fst (snd (scanMovies e a ms (w, cs))))"
proof (induction ms arbitrary: w cs)
  case Nil
  then show ?case by simp
next
  case (Cons m ms)
  then show ?case
    by (cases "getMovieCredits e (cc_id m)") (simp_all add: Let_def addCast_keys)
qed

lemma scanMovies_entries:
  "(x, info) \<in> set (snd (scanMovies e a ms (w, cs))) \<Longrightarrow>
   (x, info) \<in> set cs \<or>
   (\<exists>m\<in>set ms. \<exists>credits. getMovieCredits e (cc_id m) = Inr credits
       \<and> x \<in> cm_id ` set (take 30 (mc_cast credits)) \<and> info = coStarInfoOf m)"
proof (induction ms arbitrary: w cs)
  case Nil
  then show ?case by simp
next
  case (Cons m ms)
  show ?case
  proof (cases "getMovieCredits e (cc_id m)")
    case (Inl err)
    with Cons.prems have "(x, info) \<in> set (snd (scanMovies e a ms (issue (MovieCredits (cc_id m)) w, cs)))"
      by (simp add: Let_def)
    from Cons.IH [OF this] show ?thesis by auto
  next
    case (Inr credits)
    with Cons.prems
    have "(x, info) \<in> set (snd (scanMovies e a ms
             (issue (MovieCredits (cc_id m)) w, addCast a m (take 30 (mc_cast credits)) cs)))"
      by (simp add: Let_def)
    from Cons.IH [OF this] addCast_entries [of a m "take 30 (mc_cast credits)" cs] Inr
    show ?thesis by auto
  qed
qed

lemma scanMovies_calls:
  "calls (fst (scanMovies e a ms (w, cs))) = calls w @ map (\<lambda>m. MovieCredits (cc_id m)) ms"
proof (induction ms arbitrary: w cs)
  case Nil
  then show ?case by simp
next
  case (Cons m ms)
  then show ?case
    by (cases "getMovieCredits e (cc_id m)") (simp_all add: Let_def)
qed

lemma scanMovies_cache:
  "filmographyCache (fst (scanMovies e a ms (w, cs))) = filmographyCache w"
proof (induction ms arbitrary: w cs)
  case Nil
  then show ?case by simp
next
  case (Cons m ms)
  then show ?case
    by (cases "getMovieCredits e (cc_id m)") (simp_all add: Let_def)
qed

lemma getCoStars_Inr:
  "getFilmography e w a = (w1, Inr f) \<Longrightarrow>
   getCoStars e w a =
     (fst (scanMovies e a (topMovies f) (w1, [])), Inr (snd (scanMovies e a (topMovies f) (w1, []))))"
  by (simp add: getCoStars_def split: prod.splits)

lemma getCoStars_Inl:
  "getFilmography e w a = (w1, Inl err) \<Longrightarrow> getCoStars e w a = (w1, Inl err)"
  by (simp add: getCoStars_def)

lemma topMovies_sorted: "sorted (map (\<lambda>m. - cc_popularity m) (topMovies f))"
  unfolding topMovies_def by (simp add: sorted_wrt_take flip: take_map)

lemma find_first_least:
  assumes "sorted (map k ms)" "find P ms = Some m" "m' \<in> set ms" "P m'"
  shows "k m \<le> k m'"
proof -
  from assms(2) obtain i where i: "i < length ms" "m = ms ! i" "\<forall>j<i. \<not> P (ms ! j)"
    by (auto simp: find_Some_iff)
  from assms(3) obtain j where j: "j < length ms" "m' = ms ! j"
    by (auto simp: in_set_conv_nth)
  with i assms(4) have "i \<le> j" by (meson not_le)
  with assms(1) i j have "map k ms ! i \<le> map k ms ! j"
    by (intro sorted_nth_mono) auto
  with i j show ?thesis by simp
qed

lemma castFetches_append [simp]: "castFetches (xs @ ys) = castFetches xs @ castFetches ys"
  by (simp add: castFetches_def)

lemma castFetches_simps [simp]:
  "castFetches [] = []" "castFetches [PersonCredits a] = []"
  by (simp_all add: castFetches_def)

lemma castFetches_map [simp]:
  "castFetches (map (\<lambda>m. MovieCredits (g m)) ms) = map g ms"
  by (induction ms) (simp_all add: castFetches_def)

lemma getFilmography_calls:
  "calls (fst (getFilmography e w a)) =
     calls w @ (if filmographyCache w a = None then [PersonCredits a] else [])"
  by (auto simp: getFilmography_def Let_def split: option.splits sum.splits)

lemma getCoStars_castFetches:
  "castFetches (callsSince (length (calls w)) (fst (getCoStars e w a))) =
     (case snd (getFilmography e w a) of Inl err \<Rightarrow> [] | Inr f \<Rightarrow> map cc_id (topMovies f))"
proof -
  obtain w1 r where g: "getFilmography e w a = (w1, r)"
    by (cases "getFilmography e w a")
  from getFilmography_calls [of e w a] g
  have c1: "calls w1 = calls w @ (if filmographyCache w a = None then [PersonCredits a] else [])"
    by simp
  show ?thesis
  proof (cases r)
    case (Inl err)
    with g c1 show ?thesis
      by (simp add: getCoStars_Inl callsSince_def)
  next
    case (Inr f)
    with g c1 show ?thesis
      by (simp add: getCoStars_Inr callsSince_def scanMovies_calls)
  qed
qed

lemma topMovies_rest:
  "\<exists>rest. mset (filter (\<lambda>m. truthy (cc_release_date m)) (pc_cast f)) = mset (topMovies f) + mset rest
      \<and> (\<forall>k\<in>set (topMovies f). \<forall>r\<in>set rest. cc_popularity r \<le> cc_popularity k)
      \<and> (rest \<noteq> [] \<longrightarrow> length (topMovies f) = 20)"
proof -
  let ?l = "sort_key (\<lambda>m. - cc_popularity m) (filter (\<lambda>m. truthy (cc_release_date m)) (pc_cast f))"
  have t: "topMovies f = take 20 ?l" by (simp add: topMovies_def)
  have "sorted (map (\<lambda>m. - cc_popularity m) (take 20 ?l @ drop 20 ?l))"
    by simp
  then have o: "\<forall>k\<in>set (take 20 ?l). \<forall>r\<in>set (drop 20 ?l). cc_popularity r \<le> cc_popularity k"
    unfolding map_append sorted_append by auto
  have "mset (take 20 ?l) + mset (drop 20 ?l) = mset ?l"
    by (metis append_take_drop_id mset_append)
  then have m: "mset (filter (\<lambda>m. truthy (cc_release_date m)) (pc_cast f))
                 = mset (topMovies f) + mset (drop 20 ?l)"
    by (simp add: t)
  have "drop 20 ?l \<noteq> [] \<longrightarrow> length (topMovies f) = 20"
    by (auto simp: t)
  with o m t show ?thesis by metis
qed

subsection \<open>The two-hop scenario\<close>

text \<open>
  C1. On the two-hop graph (actors 1 and 3 share movie 10, actors 3 and 2 share movie
  20, nothing else) the search from 1 to 2 with \<open>maxDegrees = 6\<close> returns degrees 2
  and the actors 1, 3, 2. The claim expects actor 3 to carry movie 20, the movie it
  shares with actor 2. The code gives actor 3 no movie: the B-side root stores no
  movie, and the movie recorded for the meeting hop on the B side is never read.
\<close>

theorem two_hop_second_movie_missing:
  "map_option (map_sum id (map_option (\<lambda>r. (degrees r, pathView r))))
     (snd (findConnection 5 twoHopGraph freshWorld 1 2 \<lparr>maxDegrees = Some 6\<rparr>))
   = Some (Inr (Some (2, [(1, Some 10), (3, None), (2, None)])))"
  by code_simp

subsection \<open>Provider failures\<close>

text \<open>Failures that are absorbed.\<close>

lemma tolerant_simps:
  "getPersonCredits (tolerant e) = getPersonCredits e"
  "getDeceasedPersons (tolerant e) = getDeceasedPersons e"
  "getMovieCredits (tolerant e) m =
     (case getMovieCredits e m of Inl err \<Rightarrow> Inr \<lparr>mc_cast = []\<rparr> | Inr credits \<Rightarrow> Inr credits)"
  "getPersonDetails (tolerant e) a =
     (case getPersonDetails e a of Inl err \<Rightarrow> Inr (placeholderPerson a) | Inr person \<Rightarrow> Inr person)"
  by (simp_all add: tolerant_def)

lemma scanMovies_tolerant:
  "scanMovies (tolerant e) a ms (w, cs) = scanMovies e a ms (w, cs)"
proof (induction ms arbitrary: w cs)
  case Nil
  then show ?case by simp
next
  case (Cons m ms)
  then show ?case
    by (cases "getMovieCredits e (cc_id m)") (simp_all add: Let_def tolerant_simps)
qed

lemma getFilmography_tolerant: "getFilmography (tolerant e) w a = getFilmography e w a"
  by (simp add: getFilmography_def tolerant_simps cong: option.case_cong)

lemma getCoStars_tolerant: "getCoStars (tolerant e) w a = getCoStars e w a"
  by (simp add: getCoStars_def getFilmography_tolerant scanMovies_tolerant
      cong: prod.case_cong sum.case_cong)

lemma expandLevelA_tolerant: "expandLevelA (tolerant e) n ws = expandLevelA e n ws"
proof (induction n arbitrary: ws)
  case 0
  then show ?case by (cases ws) simp
next
  case (Suc n)
  then show ?case
    by (cases ws)
       (simp add: getCoStars_tolerant cong: list.case_cong prod.case_cong sum.case_cong if_cong)
qed

lemma expandLevelB_tolerant: "expandLevelB (tolerant e) n ws = expandLevelB e n ws"
proof (induction n arbitrary: ws)
  case 0
  then show ?case by (cases ws) simp
next
  case (Suc n)
  then show ?case
    by (cases ws)
       (simp add: getCoStars_tolerant cong: list.case_cong prod.case_cong sum.case_cong if_cong)
qed

lemma loopBody_tolerant: "loopBody (tolerant e) ws = loopBody e ws"
  by (simp add: loopBody_def expandFromA_def expandFromB_def
      expandLevelA_tolerant expandLevelB_tolerant
      cong: prod.case_cong sum.case_cong if_cong)

lemma bfsLoop_tolerant: "bfsLoop fuel (tolerant e) d ws = bfsLoop fuel e d ws"
proof (induction fuel arbitrary: ws)
  case 0
  then show ?case by (cases ws) simp
next
  case (Suc fuel)
  then show ?case
    by (cases ws)
       (simp add: loopBody_tolerant cong: prod.case_cong sum.case_cong flow.case_cong if_cong)
qed

lemma fetchActorDetails_tolerant:
  "fetchActorDetails (tolerant e) ids (w, d) = fetchActorDetails e ids (w, d)"
proof (induction ids arbitrary: w d)
  case Nil
  then show ?case by simp
next
  case (Cons a ids)
  then show ?case
    by (cases "getPersonDetails e a")
       (simp_all add: Let_def tolerant_simps placeholderPerson_def fun_upd_def)
qed

lemma finishSearch_tolerant: "finishSearch (tolerant e) w s mp = finishSearch e w s mp"
proof -
  show ?thesis
    by (simp add: finishSearch_def fetchActorDetails_tolerant tolerant_simps
        cong: prod.case_cong sum.case_cong)
qed

text \<open>
  No queue runs empty within a level, and every actor of the path has details: the
  search itself raises no \<open>TypeError\<close>.
\<close>

lemma scanCoStarsA_queue: "length (queueA s) \<le> length (queueA (scanCoStarsA c cs s))"
proof (induction c cs s rule: scanCoStarsA.induct)
  case (1 current s)
  then show ?case by simp
next
  case (2 current coStarId movieInfo rest s)
  then show ?case
    by (cases "visitedFromB s coStarId"; cases "visitedFromA s coStarId") (auto simp: le_Suc_eq)
qed

lemma scanCoStarsB_queue: "length (queueB s) \<le> length (queueB (scanCoStarsB c cs s))"
proof (induction c cs s rule: scanCoStarsB.induct)
  case (1 current s)
  then show ?case by simp
next
  case (2 current coStarId movieInfo rest s)
  then show ?case
    by (cases "visitedFromA s coStarId"; cases "visitedFromB s coStarId") (auto simp: le_Suc_eq)
qed

lemma fetchActorDetails_dom:
  "dom (snd (fetchActorDetails e ids (w, d))) = dom d \<union> set ids"
proof (induction ids arbitrary: w d)
  case Nil
  then show ?case by simp
next
  case (Cons a ids)
  then show ?case
    by (cases "getPersonDetails e a") (auto simp: Let_def)
qed

lemma buildFinalPath_total:
  "fst ` set combined \<subseteq> dom d \<Longrightarrow> \<exists>finalPath. buildFinalPath d combined = Inr finalPath"
  by (induction combined) (auto split: option.splits sum.splits)

text \<open>
  Failures that are passed on. As long as every filmography fetch of the call has
  succeeded the search goes on; the first one that fails ends it with its error.
\<close>

lemma getFilmography_outcome:
  assumes "fetchesOK e n v" "getFilmography e v a = (v', r)"
  shows "case r of Inl err \<Rightarrow> fetchFailed e n v' err | Inr f \<Rightarrow> fetchesOK e n v'"
proof (cases "filmographyCache v a")
  case (Some c)
  with assms show ?thesis by (auto simp: getFilmography_def)
next
  case None
  show ?thesis
  proof (cases "getPersonCredits e a")
    case (Inl err)
    with None have "getFilmography e v a = (issue (PersonCredits a) v, Inl err)"
      by (simp add: getFilmography_def Let_def)
    with assms(2) have "v' = issue (PersonCredits a) v" "r = Inl err"
      by auto
    with assms(1) Inl show ?thesis
      by (auto simp: fetchesOK_def fetchFailed_def)
  next
    case (Inr c)
    with None have "getFilmography e v a =
        ((issue (PersonCredits a) v)\<lparr>filmographyCache := (filmographyCache v)(a \<mapsto> c)\<rparr>, Inr c)"
      by (simp add: getFilmography_def Let_def)
    with assms(2) have "calls v' = calls v @ [PersonCredits a]" "r = Inr c"
      by auto
    with assms(1) Inr show ?thesis
      by (auto simp: fetchesOK_def)
  qed
qed

lemma getCoStars_outcome:
  assumes "fetchesOK e n v" "getCoStars e v a = (v', r)"
  shows "case r of Inl err \<Rightarrow> fetchFailed e n v' err | Inr cs \<Rightarrow> fetchesOK e n v'"
proof -
  obtain v1 r1 where g: "getFilmography e v a = (v1, r1)"
    by (cases "getFilmography e v a")
  note f = getFilmography_outcome [OF assms(1) g]
  show ?thesis
  proof (cases r1)
    case (Inl err)
    with g f assms(2) show ?thesis by (auto simp: getCoStars_Inl)
  next
    case (Inr film)
    with g assms(2) have "v' = fst (scanMovies e a (topMovies film) (v1, []))"
      and "r = Inr (snd (scanMovies e a (topMovies film) (v1, [])))"
      by (auto simp: getCoStars_Inr)
    with f Inr show ?thesis
      by (auto simp: fetchesOK_def scanMovies_calls)
  qed
qed

lemma expandLevelA_outcome:
  "fetchesOK e n v \<Longrightarrow> k \<le> length (queueA s) \<Longrightarrow> expandLevelA e k (v, s) = (v', r)
   \<Longrightarrow> (case r of Inl err \<Rightarrow> fetchFailed e n v' err | Inr s' \<Rightarrow> fetchesOK e n v')"
proof (induction k arbitrary: v s)
  case 0
  then show ?case by auto
next
  case (Suc k)
  from Suc.prems(2) obtain current q where q: "queueA s = current # q"
    by (cases "queueA s") auto
  obtain v1 r1 where g: "getCoStars e v (actorId current) = (v1, r1)"
    by (cases "getCoStars e v (actorId current)")
  note st = getCoStars_outcome [OF Suc.prems(1) g]
  show ?case
  proof (cases r1)
    case (Inl err1)
    with Suc.prems(3) q g st show ?thesis by auto
  next
    case (Inr coStars)
    let ?s1 = "scanCoStarsA current coStars (s\<lparr>queueA := q\<rparr>)"
    from st Inr have ok1: "fetchesOK e n v1" by simp
    show ?thesis
    proof (cases "meetingPoint ?s1 \<noteq> None")
      case True
      with Suc.prems(3) q g Inr ok1 show ?thesis by (auto simp: Let_def)
    next
      case False
      with Suc.prems(3) q g Inr have run: "expandLevelA e k (v1, ?s1) = (v', r)"
        by (simp add: Let_def)
      from Suc.prems(2) q scanCoStarsA_queue [of "s\<lparr>queueA := q\<rparr>" current coStars]
      have "k \<le> length (queueA ?s1)" by simp
      from Suc.IH [OF ok1 this run] show ?thesis .
    qed
  qed
qed

lemma expandLevelB_outcome:
  "fetchesOK e n v \<Longrightarrow> k \<le> length (queueB s) \<Longrightarrow> expandLevelB e k (v, s) = (v', r)
   \<Longrightarrow> (case r of Inl err \<Rightarrow> fetchFailed e n v' err | Inr s' \<Rightarrow> fetchesOK e n v')"
proof (induction k arbitrary: v s)
  case 0
  then show ?case by auto
next
  case (Suc k)
  from Suc.prems(2) obtain current q where q: "queueB s = current # q"
    by (cases "queueB s") auto
  obtain v1 r1 where g: "getCoStars e v (actorId current) = (v1, r1)"
    by (cases "getCoStars e v (actorId current)")
  note st = getCoStars_outcome [OF Suc.prems(1) g]
  show ?case
  proof (cases r1)
    case (Inl err1)
    with Suc.prems(3) q g st show ?thesis by auto
  next
    case (Inr coStars)
    let ?s1 = "scanCoStarsB current coStars (s\<lparr>queueB := q\<rparr>)"
    from st Inr have ok1: "fetchesOK e n v1" by simp
    show ?thesis
    proof (cases "meetingPoint ?s1 \<noteq> None")
      case True
      with Suc.prems(3) q g Inr ok1 show ?thesis by (auto simp: Let_def)
    next
      case False
      with Suc.prems(3) q g Inr have run: "expandLevelB e k (v1, ?s1) = (v', r)"
        by (simp add: Let_def)
      from Suc.prems(2) q scanCoStarsB_queue [of "s\<lparr>queueB := q\<rparr>" current coStars]
      have "k \<le> length (queueB ?s1)" by simp
      from Suc.IH [OF ok1 this run] show ?thesis .
    qed
  qed
qed

lemma expandFromA_outcome:
  assumes "fetchesOK e n v" "expandFromA e (v, s) = (v', r)"
  shows "case r of Inl err \<Rightarrow> fetchFailed e n v' err | Inr s' \<Rightarrow> fetchesOK e n v'"
proof (cases "runsA s")
  case True
  with assms(2)
  have "expandLevelA e (length (queueA s)) (v, s\<lparr>degreesFromA := degreesFromA s + 1\<rparr>) = (v', r)"
    by (simp add: expandFromA_def)
  from expandLevelA_outcome [OF assms(1) _ this] show ?thesis by simp
next
  case False
  with assms show ?thesis by (auto simp: expandFromA_def)
qed

lemma expandFromB_outcome:
  assumes "fetchesOK e n v" "expandFromB e (v, s) = (v', r)"
  shows "case r of Inl err \<Rightarrow> fetchFailed e n v' err | Inr s' \<Rightarrow> fetchesOK e n v'"
proof (cases "runsB s")
  case True
  with assms(2)
  have "expandLevelB e (length (queueB s)) (v, s\<lparr>degreesFromB := degreesFromB s + 1\<rparr>) = (v', r)"
    by (simp add: expandFromB_def)
  from expandLevelB_outcome [OF assms(1) _ this] show ?thesis by simp
next
  case False
  with assms show ?thesis by (auto simp: expandFromB_def)
qed

lemma loopBody_outcome:
  assumes "fetchesOK e n v" "loopBody e (v, s) = (v', r)"
  shows "case r of Inl err \<Rightarrow> fetchFailed e n v' err | Inr fs \<Rightarrow> fetchesOK e n v'"
proof -
  obtain v1 r1 where a: "expandFromA e (v, s) = (v1, r1)"
    by (cases "expandFromA e (v, s)")
  note a1 = expandFromA_outcome [OF assms(1) a]
  show ?thesis
  proof (cases r1)
    case (Inl err)
    with a a1 assms(2) show ?thesis by (auto simp: loopBody_def)
  next
    case (Inr s1)
    with a1 have ok1: "fetchesOK e n v1" by simp
    show ?thesis
    proof (cases "runsA s \<and> meetingPoint s1 \<noteq> None")
      case True
      with a Inr assms(2) ok1 show ?thesis by (auto simp: loopBody_def)
    next
      case False
      obtain v2 r2 where b: "expandFromB e (v1, s1) = (v2, r2)"
        by (cases "expandFromB e (v1, s1)")
      note b1 = expandFromB_outcome [OF ok1 b]
      from False a Inr b assms(2) b1 show ?thesis
        by (cases r2) (auto simp: loopBody_def split: if_splits)
    qed
  qed
qed

lemma bfsLoop_outcome:
  "fetchesOK e n v \<Longrightarrow> bfsLoop fuel e d (v, s) = (v', r)
   \<Longrightarrow> (case r of None \<Rightarrow> fetchesOK e n v'
        | Some (Inl err) \<Rightarrow> fetchFailed e n v' err
        | Some (Inr s') \<Rightarrow> fetchesOK e n v')"
proof (induction fuel arbitrary: v s)
  case 0
  then show ?case by auto
next
  case (Suc fuel)
  show ?case
  proof (cases "loopTest d s")
    case False
    with Suc.prems show ?thesis by (simp add: bfsLoop_exit del: bfsLoop.simps) auto
  next
    case True
    note run = Suc.prems(2) [unfolded bfsLoop_iterate [OF True]]
    obtain v1 r1 where b: "loopBody e (v, s) = (v1, r1)"
      by (cases "loopBody e (v, s)")
    note st = loopBody_outcome [OF Suc.prems(1) b]
    show ?thesis
    proof (cases r1)
      case (Inl err)
      with run b st show ?thesis by auto
    next
      case (Inr fs)
      obtain fl s1 where fs: "fs = (fl, s1)" by (cases fs)
      from st Inr have ok1: "fetchesOK e n v1" by simp
      show ?thesis
      proof (cases fl)
        case Break
        with run b Inr fs ok1 show ?thesis by auto
      next
        case Continue
        with run b Inr fs have "bfsLoop fuel e d (v1, s1) = (v', r)" by auto
        from Suc.IH [OF ok1 this] show ?thesis .
      qed
    qed
  qed
qed

lemma getCoStars_noLookup:
  assumes "noLookup n v" "getCoStars e v a = (v', r)"
  shows "noLookup n v'"
proof -
  obtain v1 r1 where g: "getFilmography e v a = (v1, r1)"
    by (cases "getFilmography e v a")
  from getFilmography_calls [of e v a] g assms(1) have n1: "noLookup n v1"
    by (auto simp: noLookup_def)
  show ?thesis
  proof (cases r1)
    case (Inl err)
    with g n1 assms(2) show ?thesis by (auto simp: getCoStars_Inl)
  next
    case (Inr film)
    with g assms(2) have "v' = fst (scanMovies e a (topMovies film) (v1, []))"
      by (auto simp: getCoStars_Inr)
    with n1 show ?thesis
      by (auto simp: noLookup_def scanMovies_calls storeLookups_def)
  qed
qed

lemma bfsLoop_noLookup:
  assumes "noLookup n v" "bfsLoop fuel e d (v, s) = (v', r)"
  shows "noLookup n v'"
proof -
  have "case r of None \<Rightarrow> noLookup n v'
        | Some x \<Rightarrow> if isl x then noLookup n v' else noLookup n v'"
    by (rule bfsLoop_world [where P = "noLookup n" and Q = "noLookup n", OF _ _ assms])
       (auto dest: getCoStars_noLookup)
  then show ?thesis by (auto split: option.splits if_splits)
qed

text \<open>The store of deceased persons is looked up once, after the loop.\<close>

lemma finishSearch_cases:
  "\<exists>dids v1.
     calls v1 = calls v @ map (\<lambda>p. PersonDetails (fst p)) (combinedPath s mp) @ [DeceasedPersons dids]
     \<and> (case getDeceasedPersons e dids of
          Inl err \<Rightarrow> finishSearch e v s mp = (v1, Inl err)
        | Inr m \<Rightarrow> (\<exists>r. finishSearch e v s mp = (clearFilmographyCache v1, Inr (Some r))))"
proof -
  let ?c = "combinedPath s mp"
  obtain v0 d where f: "fetchActorDetails e (map fst ?c) (v, Map.empty) = (v0, d)"
    by (cases "fetchActorDetails e (map fst ?c) (v, Map.empty)")
  from fetchActorDetails_calls [of e "map fst ?c" v Map.empty] f
  have c0: "calls v0 = calls v @ map (\<lambda>p. PersonDetails (fst p)) ?c"
    by (simp add: o_def)
  from fetchActorDetails_dom [of e "map fst ?c" v Map.empty] f
  have "fst ` set ?c \<subseteq> dom d" by simp
  from buildFinalPath_total [OF this] obtain finalPath
    where b: "buildFinalPath d ?c = Inr finalPath" ..
  let ?dids = "map (\<lambda>p. pa_id (actor p)) (filter (\<lambda>p. isDeceased (actor p)) finalPath)"
  let ?v1 = "issue (DeceasedPersons ?dids) v0"
  have "calls ?v1 = calls v @ map (\<lambda>p. PersonDetails (fst p)) ?c @ [DeceasedPersons ?dids]"
    using c0 by simp
  moreover have "case getDeceasedPersons e ?dids of
          Inl err \<Rightarrow> finishSearch e v s mp = (?v1, Inl err)
        | Inr m \<Rightarrow> (\<exists>r. finishSearch e v s mp = (clearFilmographyCache ?v1, Inr (Some r)))"
    using f b by (simp add: finishSearch_def Let_def split: sum.splits)
  ultimately show ?thesis by blast
qed

text \<open>
  C2, as the code has it. In a search between two different actors a failed cast
  fetch and a failed detail lookup are absorbed: the call behaves, for every number
  of loop iterations, exactly as with providers that answer the empty cast and the
  placeholder details instead. The call ends with the exception \<open>err\<close> exactly when
  it has issued a filmography fetch that the provider rejected with \<open>err\<close>, or a
  lookup in the store of deceased persons that the store rejected with \<open>err\<close>: such
  a failure always ends the call, and nothing else does.
\<close>

theorem failures_absorbed_or_passed_on:
  assumes "a \<noteq> b"
  shows "findConnection fuel e w a b opts = findConnection fuel (tolerant e) w a b opts
         \<and> (\<forall>err. snd (findConnection fuel e w a b opts) = Some (Inl err) \<longleftrightarrow>
               (\<exists>x\<in>set (creditFetches
                          (callsSince (length (calls w)) (fst (findConnection fuel e w a b opts)))).
                   getPersonCredits e x = Inl err)
               \<or> (\<exists>ids\<in>set (storeLookups
                            (callsSince (length (calls w)) (fst (findConnection fuel e w a b opts)))).
                     getDeceasedPersons e ids = Inl err))"
proof -
  let ?d = "case maxDegrees opts of None \<Rightarrow> 6 | Some d \<Rightarrow> d"
  let ?n = "length (calls w)"
  let ?F = "findConnection fuel e w a b opts"
  have 1: "?F = findConnection fuel (tolerant e) w a b opts"
    using assms
    by (simp add: findConnection_distinct bfsLoop_tolerant finishSearch_tolerant
        cong: prod.case_cong sum.case_cong option.case_cong)
  obtain w1 r1 where l: "bfsLoop fuel e ?d (clearFilmographyCache w, initialState a b) = (w1, r1)"
    by (cases "bfsLoop fuel e ?d (clearFilmographyCache w, initialState a b)")
  have "fetchesOK e ?n (clearFilmographyCache w)" "noLookup ?n (clearFilmographyCache w)"
    by (simp_all add: fetchesOK_def noLookup_def)
  from bfsLoop_outcome [OF this(1) l] bfsLoop_noLookup [OF this(2) l]
  have out: "case r1 of None \<Rightarrow> fetchesOK e ?n w1
        | Some (Inl err) \<Rightarrow> fetchFailed e ?n w1 err
        | Some (Inr s') \<Rightarrow> fetchesOK e ?n w1"
    and nl: "noLookup ?n w1" .
  have 2: "snd ?F = Some (Inl err) \<longleftrightarrow>
             (\<exists>x\<in>set (creditFetches (callsSince ?n (fst ?F))). getPersonCredits e x = Inl err)
             \<or> (\<exists>ids\<in>set (storeLookups (callsSince ?n (fst ?F))). getDeceasedPersons e ids = Inl err)"
    for err
  proof (cases r1)
    case None
    with l assms have "?F = (w1, None)" by (simp add: findConnection_distinct)
    with out nl None show ?thesis
      by (auto simp: fetchesOK_def noLookup_def callsSince_def)
  next
    case (Some x1)
    show ?thesis
    proof (cases x1)
      case (Inl err1)
      with l Some assms have F: "?F = (w1, Some (Inl err1))"
        by (simp add: findConnection_distinct)
      from out Some Inl obtain pre x
        where c: "creditFetches (drop ?n (calls w1)) = pre @ [x]"
          and p: "\<forall>y\<in>set pre. \<not> isl (getPersonCredits e y)"
          and x: "getPersonCredits e x = Inl err1"
        by (auto simp: fetchFailed_def)
      from c p x have "(\<exists>y\<in>set (creditFetches (drop ?n (calls w1))). getPersonCredits e y = Inl err)
                        \<longleftrightarrow> err = err1"
        by auto
      with F nl show ?thesis
        by (auto simp: noLookup_def callsSince_def)
    next
      case (Inr s1)
      from out Some Inr have ok: "fetchesOK e ?n w1" by simp
      show ?thesis
      proof (cases "meetingPoint s1")
        case None
        with l Some Inr assms have "?F = (clearFilmographyCache w1, Some (Inr None))"
          by (simp add: findConnection_distinct)
        with ok nl show ?thesis
          by (auto simp: fetchesOK_def noLookup_def callsSince_def)
      next
        case (Some mp)
        from finishSearch_cases [of w1 s1 mp e] obtain dids v1
          where c: "calls v1 = calls w1 @ map (\<lambda>p. PersonDetails (fst p)) (combinedPath s1 mp)
                                @ [DeceasedPersons dids]"
            and f: "case getDeceasedPersons e dids of
                      Inl err \<Rightarrow> finishSearch e w1 s1 mp = (v1, Inl err)
                    | Inr m \<Rightarrow> (\<exists>r. finishSearch e w1 s1 mp = (clearFilmographyCache v1, Inr (Some r)))"
          by blast
        from ok nl have n: "?n \<le> length (calls w1)" by (simp add: noLookup_def)
        from c n ok have cf: "\<forall>y\<in>set (creditFetches (drop ?n (calls v1))). \<not> isl (getPersonCredits e y)"
          by (simp add: fetchesOK_def)
        have pd: "storeLookups (map (\<lambda>p. PersonDetails (fst p)) (combinedPath s1 mp)) = []"
          by (induction "combinedPath s1 mp") (simp_all add: storeLookups_def)
        from c n nl pd have sl: "storeLookups (drop ?n (calls v1)) = [dids]"
          by (simp add: noLookup_def)
        show ?thesis
        proof (cases "getDeceasedPersons e dids")
          case (Inl err2)
          with f l \<open>r1 = Some x1\<close> Inr Some assms have "?F = (v1, Some (Inl err2))"
            by (simp add: findConnection_distinct)
          with cf sl Inl show ?thesis
            by (auto simp: callsSince_def)
        next
          case (Inr m)
          with f obtain r where "finishSearch e w1 s1 mp = (clearFilmographyCache v1, Inr (Some r))"
            by auto
          with l \<open>r1 = Some x1\<close> \<open>x1 = Inr s1\<close> Some assms
          have "?F = (clearFilmographyCache v1, Some (Inr (Some r)))"
            by (simp add: findConnection_distinct)
          with cf sl Inr show ?thesis
            by (auto simp: callsSince_def)
        qed
      qed
    qed
  qed
  from 1 2 show ?thesis by blast
qed

theorem failures_absorbed_or_passed_on_witness:
  "(1::int) \<noteq> 2
   \<and> getMovieCredits castAndDetailsDown 30 = Inl ProviderUnavailable
   \<and> getPersonDetails castAndDetailsDown 3 = Inl ProviderUnavailable
   \<and> castFetches (calls (fst (findConnection 5 castAndDetailsDown freshWorld 1 2 \<lparr>maxDegrees = None\<rparr>)))
       = [30, 10, 20]
   \<and> findConnection 5 castAndDetailsDown freshWorld 1 2 \<lparr>maxDegrees = None\<rparr>
       = findConnection 5 (tolerant castAndDetailsDown) freshWorld 1 2 \<lparr>maxDegrees = None\<rparr>
   \<and> map_option (map_sum id (map_option (\<lambda>r. (degrees r, map (\<lambda>p. pa_name (actor p)) (path r)))))
         (snd (findConnection 5 castAndDetailsDown freshWorld 1 2 \<lparr>maxDegrees = None\<rparr>))
       = Some (Inr (Some (2, [''Actor 1'', ''Actor 3'', ''Actor 2''])))
   \<and> creditFetches (callsSince (length (calls freshWorld))
         (fst (findConnection 5 (filmographyDown 2) freshWorld 1 2 \<lparr>maxDegrees = None\<rparr>))) = [1, 2]
   \<and> getPersonCredits (filmographyDown 2) 2 = Inl ProviderUnavailable
   \<and> snd (findConnection 5 (filmographyDown 2) freshWorld 1 2 \<lparr>maxDegrees = None\<rparr>)
       = Some (Inl ProviderUnavailable)
   \<and> storeLookups (callsSince (length (calls freshWorld))
         (fst (findConnection 5 storeDown freshWorld 1 2 \<lparr>maxDegrees = None\<rparr>))) = [[]]
   \<and> getDeceasedPersons storeDown [] = Inl StoreUnavailable
   \<and> snd (findConnection 5 storeDown freshWorld 1 2 \<lparr>maxDegrees = None\<rparr>)
       = Some (Inl StoreUnavailable)"
proof -
  let ?o = "\<lparr>maxDegrees = None\<rparr>"
  have ne: "(1::int) \<noteq> 2" by simp
  have h1: "getMovieCredits castAndDetailsDown 30 = Inl ProviderUnavailable"
    "getPersonDetails castAndDetailsDown 3 = Inl ProviderUnavailable"
    "getPersonCredits (filmographyDown 2) 2 = Inl ProviderUnavailable"
    "getDeceasedPersons storeDown [] = Inl StoreUnavailable"
    by (simp_all add: castAndDetailsDown_def filmographyDown_def storeDown_def)
  have h2: "map_option (map_sum id (map_option (\<lambda>r. (degrees r, map (\<lambda>p. pa_name (actor p)) (path r)))))
         (snd (findConnection 5 castAndDetailsDown freshWorld 1 2 ?o))
       = Some (Inr (Some (2, [''Actor 1'', ''Actor 3'', ''Actor 2''])))"
    by code_simp
  have h3: "castFetches (calls (fst (findConnection 5 castAndDetailsDown freshWorld 1 2 ?o)))
       = [30, 10, 20]"
    by code_simp
  have h4: "creditFetches (callsSince (length (calls freshWorld))
         (fst (findConnection 5 (filmographyDown 2) freshWorld 1 2 ?o))) = [1, 2]"
    by code_simp
  have h5: "storeLookups (callsSince (length (calls freshWorld))
         (fst (findConnection 5 storeDown freshWorld 1 2 ?o))) = [[]]"
    by code_simp
  note t1 = failures_absorbed_or_passed_on [OF ne, of 5 castAndDetailsDown freshWorld ?o]
  note t2 = failures_absorbed_or_passed_on
                [OF ne, of 5 "filmographyDown 2" freshWorld ?o, THEN conjunct2, THEN spec,
                 of ProviderUnavailable]
  note t3 = failures_absorbed_or_passed_on
                [OF ne, of 5 storeDown freshWorld ?o, THEN conjunct2, THEN spec,
                 of StoreUnavailable]
  from h4 h1(3)
  have "\<exists>x\<in>set (creditFetches (callsSince (length (calls freshWorld))
              (fst (findConnection 5 (filmographyDown 2) freshWorld 1 2 ?o)))).
          getPersonCredits (filmographyDown 2) x = Inl ProviderUnavailable"
    by simp
  with t2
  have f: "snd (findConnection 5 (filmographyDown 2) freshWorld 1 2 ?o) = Some (Inl ProviderUnavailable)"
    by blast
  from h5 h1(4)
  have "\<exists>ids\<in>set (storeLookups (callsSince (length (calls freshWorld))
              (fst (findConnection 5 storeDown freshWorld 1 2 ?o)))).
          getDeceasedPersons storeDown ids = Inl StoreUnavailable"
    by simp
  with t3
  have s: "snd (findConnection 5 storeDown freshWorld 1 2 ?o) = Some (Inl StoreUnavailable)"
    by blast
  from t1 [THEN conjunct1] ne h1 h2 h3 h4 h5 f s show ?thesis by blast
qed

text \<open>
  C2, as stated, has the search absorb a failed filmography fetch too. On the
  two-hop graph with the filmography of actor 2 failing, the search from 1 to 2
  ends with the provider's error.
\<close>

theorem filmography_failure_counterexample:
  "(1::int) \<noteq> 2
   \<and> getPersonCredits (filmographyDown 2) 2 = Inl ProviderUnavailable
   \<and> snd (findConnection 5 (filmographyDown 2) freshWorld 1 2 \<lparr>maxDegrees = Some 6\<rparr>)
       = Some (Inl ProviderUnavailable)"
  by code_simp

subsection \<open>The degree bound\<close>

text \<open>
  C3. The claim: when the shortest distance exceeds \<open>maxDegrees\<close> the answer is
  \<open>null\<close>, so no result has more degrees than \<open>maxDegrees\<close>. On the two-hop graph
  actor 2 is no co-star of actor 1, the distance is 2, and with \<open>maxDegrees = 1\<close>
  the code still returns the path of 2 degrees: the bound is tested once per
  iteration, and one iteration expands a level on both sides.
\<close>

theorem bound_exceeded_with_maxDegrees_1:
  "map_sum id (map fst) (snd (getCoStars twoHopGraph freshWorld 1)) = Inr [3]
   \<and> map_option (map_sum id (map_option (\<lambda>r. (degrees r, map fst (pathView r)))))
        (snd (findConnection 5 twoHopGraph freshWorld 1 2 \<lparr>maxDegrees = Some 1\<rparr>))
      = Some (Inr (Some (2, [1, 3, 2])))"
  by code_simp

subsection \<open>A search that does not return\<close>

text \<open>
  An iteration in which neither block runs leaves the state as it was and awaits
  nothing, so the loop repeats it for ever: no number of iterations is enough.
\<close>

lemma loopBody_stuck: "\<not> runsA s \<Longrightarrow> \<not> runsB s \<Longrightarrow> loopBody e (w, s) = (w, Inr (Continue, s))"
  by (simp add: loopBody_def expandFromA_def expandFromB_def)

lemma bfsLoop_stuck: "stuck d s \<Longrightarrow> bfsLoop fuel e d (w, s) = (w, None)"
proof (induction fuel)
  case 0
  then show ?case by simp
next
  case (Suc fuel)
  then show ?case
    by (simp add: stuck_def bfsLoop_iterate loopBody_stuck del: bfsLoop.simps)
qed

text \<open>
  The search from actor 1 to the isolated actor 2 reaches such a state after two
  iterations (\<open>degreesFromA = 2\<close>, \<open>degreesFromB = 1\<close>, actor 4 queued on the A
  side, the B queue empty) and does not return, whatever the number of iterations.
\<close>

lemma search_does_not_return:
  "snd (findConnection fuel isolatedTarget freshWorld 1 2 \<lparr>maxDegrees = Some 6\<rparr>) = None"
proof -
  let ?e = isolatedTarget
  let ?w0 = "clearFilmographyCache freshWorld"
  let ?L1 = "loopBody ?e (?w0, initialState 1 2)"
  let ?w1 = "fst ?L1" and ?s1 = "snd (projr (snd ?L1))"
  let ?L2 = "loopBody ?e (?w1, ?s1)"
  let ?w2 = "fst ?L2" and ?s2 = "snd (projr (snd ?L2))"
  have t0: "loopTest 6 (initialState 1 2)"
    by code_simp
  have "\<not> isl (snd ?L1)" "fst (projr (snd ?L1)) = Continue"
    by code_simp+
  then have b1: "?L1 = (?w1, Inr (Continue, ?s1))"
    by (metis prod.collapse sum.collapse(2))
  have t1: "loopTest 6 ?s1"
    by code_simp
  have "\<not> isl (snd ?L2)" "fst (projr (snd ?L2)) = Continue"
    by code_simp+
  then have b2: "?L2 = (?w2, Inr (Continue, ?s2))"
    by (metis prod.collapse sum.collapse(2))
  have st: "stuck 6 ?s2"
    by code_simp
  have "snd (bfsLoop fuel ?e 6 (?w0, initialState 1 2)) = None"
  proof (cases fuel)
    case 0
    then show ?thesis by simp
  next
    case (Suc k)
    have one: "bfsLoop (Suc k) ?e 6 (?w0, initialState 1 2) = bfsLoop k ?e 6 (?w1, ?s1)"
      by (subst bfsLoop_iterate [OF t0], subst b1) simp
    show ?thesis
    proof (cases k)
      case 0
      with Suc one show ?thesis by simp
    next
      case (Suc j)
      have "bfsLoop (Suc j) ?e 6 (?w1, ?s1) = bfsLoop j ?e 6 (?w2, ?s2)"
        by (subst bfsLoop_iterate [OF t1], subst b2) simp
      with \<open>fuel = Suc k\<close> Suc one bfsLoop_stuck [OF st, of j ?e ?w2] show ?thesis
        by simp
    qed
  qed
  then show ?thesis
    by (auto simp: findConnection_distinct split: prod.splits)
qed

subsection \<open>The levels expanded by one iteration\<close>

text \<open>What a level leaves alone.\<close>

lemma scanCoStarsA_frame:
  "visitedFromB (scanCoStarsA c cs s) = visitedFromB s
   \<and> queueB (scanCoStarsA c cs s) = queueB s
   \<and> degreesFromA (scanCoStarsA c cs s) = degreesFromA s
   \<and> degreesFromB (scanCoStarsA c cs s) = degreesFromB s"
  by (induction c cs s rule: scanCoStarsA.induct) (auto split: option.splits)

lemma scanCoStarsB_frame:
  "visitedFromA (scanCoStarsB c cs s) = visitedFromA s
   \<and> queueA (scanCoStarsB c cs s) = queueA s
   \<and> degreesFromA (scanCoStarsB c cs s) = degreesFromA s
   \<and> degreesFromB (scanCoStarsB c cs s) = degreesFromB s"
  by (induction c cs s rule: scanCoStarsB.induct) (auto split: option.splits)

lemma expandLevelA_frame:
  "expandLevelA e n (w, s) = (w', Inr s') \<Longrightarrow>
   visitedFromB s' = visitedFromB s \<and> queueB s' = queueB s
   \<and> degreesFromA s' = degreesFromA s \<and> degreesFromB s' = degreesFromB s"
proof (induction n arbitrary: w s)
  case 0
  then show ?case by simp
next
  case (Suc n)
  show ?case
  proof (cases "queueA s")
    case Nil
    with Suc.prems show ?thesis by simp
  next
    case (Cons current q)
    obtain w1 r1 where g: "getCoStars e w (actorId current) = (w1, r1)"
      by (cases "getCoStars e w (actorId current)")
    show ?thesis
    proof (cases r1)
      case (Inl err)
      with Suc.prems Cons g show ?thesis by simp
    next
      case (Inr coStars)
      let ?s1 = "scanCoStarsA current coStars (s\<lparr>queueA := q\<rparr>)"
      note fr = scanCoStarsA_frame [of current coStars "s\<lparr>queueA := q\<rparr>"]
      show ?thesis
      proof (cases "meetingPoint ?s1 \<noteq> None")
        case True
        with Suc.prems Cons g Inr have "s' = ?s1" by (simp add: Let_def)
        with fr show ?thesis by simp
      next
        case False
        with Suc.prems Cons g Inr have "expandLevelA e n (w1, ?s1) = (w', Inr s')"
          by (simp add: Let_def)
        from Suc.IH [OF this] fr show ?thesis by simp
      qed
    qed
  qed
qed

lemma expandLevelB_frame:
  "expandLevelB e n (w, s) = (w', Inr s') \<Longrightarrow>
   visitedFromA s' = visitedFromA s \<and> queueA s' = queueA s
   \<and> degreesFromA s' = degreesFromA s \<and> degreesFromB s' = degreesFromB s"
proof (induction n arbitrary: w s)
  case 0
  then show ?case by simp
next
  case (Suc n)
  show ?case
  proof (cases "queueB s")
    case Nil
    with Suc.prems show ?thesis by simp
  next
    case (Cons current q)
    obtain w1 r1 where g: "getCoStars e w (actorId current) = (w1, r1)"
      by (cases "getCoStars e w (actorId current)")
    show ?thesis
    proof (cases r1)
      case (Inl err)
      with Suc.prems Cons g show ?thesis by simp
    next
      case (Inr coStars)
      let ?s1 = "scanCoStarsB current coStars (s\<lparr>queueB := q\<rparr>)"
      note fr = scanCoStarsB_frame [of current coStars "s\<lparr>queueB := q\<rparr>"]
      show ?thesis
      proof (cases "meetingPoint ?s1 \<noteq> None")
        case True
        with Suc.prems Cons g Inr have "s' = ?s1" by (simp add: Let_def)
        with fr show ?thesis by simp
      next
        case False
        with Suc.prems Cons g Inr have "expandLevelB e n (w1, ?s1) = (w', Inr s')"
          by (simp add: Let_def)
        from Suc.IH [OF this] fr show ?thesis by simp
      qed
    qed
  qed
qed

lemma expandFromA_frame:
  "expandFromA e (w, s) = (w', Inr s') \<Longrightarrow>
   visitedFromB s' = visitedFromB s \<and> queueB s' = queueB s
   \<and> degreesFromA s' = degreesFromA s + (if runsA s then 1 else 0)
   \<and> degreesFromB s' = degreesFromB s"
  by (auto simp: expandFromA_def split: if_splits dest!: expandLevelA_frame)

lemma expandFromB_frame:
  "expandFromB e (w, s) = (w', Inr s') \<Longrightarrow>
   visitedFromA s' = visitedFromA s \<and> queueA s' = queueA s
   \<and> degreesFromA s' = degreesFromA s
   \<and> degreesFromB s' = degreesFromB s + (if runsB s then 1 else 0)"
  by (auto simp: expandFromB_def split: if_splits dest!: expandLevelB_frame)

text \<open>
  C4, as the code has it. In an iteration of the search loop that ends without an
  exception, the A side is expanded by one level exactly when its queue is not empty
  and \<open>degreesFromA \<le> degreesFromB\<close>; after that, in the same iteration and under
  the same test of the degree bound, the B side is expanded by one level exactly when
  its queue is not empty and the state left by the A block holds no meeting point.
  An iteration so expands no level, one level or a level on both sides.
\<close>

theorem both_sides_in_one_iteration:
  assumes "loopBody e (w, s) = (w', Inr (fl, s'))"
  shows "\<exists>w1 s1. expandFromA e (w, s) = (w1, Inr s1)
           \<and> degreesFromA s' =
               degreesFromA s + (if queueA s \<noteq> [] \<and> degreesFromA s \<le> degreesFromB s then 1 else 0)
           \<and> degreesFromB s' =
               degreesFromB s + (if queueB s \<noteq> [] \<and> meetingPoint s1 = None then 1 else 0)"
proof -
  obtain w1 r1 where a: "expandFromA e (w, s) = (w1, r1)"
    by (cases "expandFromA e (w, s)")
  from assms a obtain s1 where r1: "r1 = Inr s1"
    by (cases r1) (auto simp: loopBody_def)
  note fa = expandFromA_frame [OF a [unfolded r1]]
  show ?thesis
  proof (cases "runsA s \<and> meetingPoint s1 \<noteq> None")
    case True
    with assms a r1 have "s' = s1" by (auto simp: loopBody_def)
    with True a r1 fa show ?thesis by (auto simp: runsA_def)
  next
    case False
    obtain w2 r2 where b: "expandFromB e (w1, s1) = (w2, r2)"
      by (cases "expandFromB e (w1, s1)")
    from assms a r1 False b have r2: "r2 = Inr s'"
      by (cases r2) (auto simp: loopBody_def split: if_splits)
    note fb = expandFromB_frame [OF b [unfolded r2]]
    have m: "\<not> runsA s \<Longrightarrow> s1 = s"
      using a r1 by (simp add: expandFromA_def)
    from False a r1 fa fb m show ?thesis
      by (auto simp: runsA_def runsB_def)
  qed
qed

theorem both_sides_in_one_iteration_witness:
  "loopBody twoHopGraph (freshWorld, initialState 1 2) =
     (fst (loopBody twoHopGraph (freshWorld, initialState 1 2)),
      Inr (Break, snd (projr (snd (loopBody twoHopGraph (freshWorld, initialState 1 2))))))
   \<and> degreesFromA (snd (projr (snd (loopBody twoHopGraph (freshWorld, initialState 1 2))))) = 1
   \<and> degreesFromB (snd (projr (snd (loopBody twoHopGraph (freshWorld, initialState 1 2))))) = 1"
proof -
  let ?L = "loopBody twoHopGraph (freshWorld, initialState 1 2)"
  have inr: "\<not> isl (snd ?L)" and br: "fst (projr (snd ?L)) = Break"
    by code_simp+
  have h: "?L = (fst ?L, Inr (Break, snd (projr (snd ?L))))"
    using inr br by (metis prod.collapse sum.collapse(2))
  have qa: "queueA (initialState 1 2) \<noteq> []" and qb: "queueB (initialState 1 2) \<noteq> []"
    and d0: "degreesFromA (initialState 1 2) = 0" "degreesFromB (initialState 1 2) = 0"
    by (simp_all add: initialState_def)
  have m: "meetingPoint (projr (snd (expandFromA twoHopGraph (freshWorld, initialState 1 2)))) = None"
    by code_simp
  from both_sides_in_one_iteration [OF h] obtain w1 s1
    where a: "expandFromA twoHopGraph (freshWorld, initialState 1 2) = (w1, Inr s1)"
      and da: "degreesFromA (snd (projr (snd ?L))) = 1"
      and db: "degreesFromB (snd (projr (snd ?L))) =
                 (if meetingPoint s1 = None then 1 else 0)"
    using qa qb d0 by auto
  from a m have "meetingPoint s1 = None" by simp
  with h da db show ?thesis by simp
qed

text \<open>
  C4, as stated, asks for exactly one expanded level per iteration. The first
  iteration of the search from 1 to 2 on the two-hop graph takes both counters from
  0 to 1: a level was expanded on each side.
\<close>

theorem one_level_per_iteration_counterexample:
  "degreesFromA (initialState 1 2) = 0 \<and> degreesFromB (initialState 1 2) = 0
   \<and> map_sum id (\<lambda>r. (degreesFromA (snd r), degreesFromB (snd r)))
        (snd (loopBody twoHopGraph (freshWorld, initialState 1 2))) = Inr (1, 1)"
  by code_simp

subsection \<open>Precedence among the movies shared with a co-star\<close>

text \<open>
  C5. Let the filmography of actor \<open>a\<close> be at hand (cached or fetched). The expander
  returns a map with one entry per co-star. The entry of a co-star \<open>x\<close> is the movie
  that comes first, in the order of descending popularity of the qualifying movies,
  among those whose considered cast contains \<open>x\<close>; no later movie replaces it. That
  movie has the highest popularity among the qualifying movies whose considered cast
  contains \<open>x\<close>. The actor \<open>a\<close> itself, and an actor in no considered cast, has no entry.
\<close>

theorem costar_first_movie_wins:
  assumes "getFilmography e w a = (w1, Inr filmography)"
  shows "\<exists>w2 coStars.
           getCoStars e w a = (w2, Inr coStars)
           \<and> distinct (map fst coStars)
           \<and> map_of coStars x =
               (if x = a then None
                else map_option coStarInfoOf
                       (find (\<lambda>m. x \<in> set (consideredCast e m)) (topMovies filmography)))
           \<and> (\<forall>m m'. find (\<lambda>m. x \<in> set (consideredCast e m)) (topMovies filmography) = Some m
                  \<and> m' \<in> set (topMovies filmography) \<and> x \<in> set (consideredCast e m')
                \<longrightarrow> cc_popularity m' \<le> cc_popularity m)"
proof -
  have "\<And>m m'. find (\<lambda>m. x \<in> set (consideredCast e m)) (topMovies filmography) = Some m
          \<Longrightarrow> m' \<in> set (topMovies filmography) \<Longrightarrow> x \<in> set (consideredCast e m')
          \<Longrightarrow> cc_popularity m' \<le> cc_popularity m"
    using find_first_least [OF topMovies_sorted, of "\<lambda>m. x \<in> set (consideredCast e m)" filmography]
    by fastforce
  then show ?thesis
    using getCoStars_Inr [OF assms] scanMovies_keys [of "[]" e a "topMovies filmography" w1]
      scanMovies_lookup [of e a "topMovies filmography" w1 "[]" x]
    by simp
qed

theorem costar_first_movie_wins_witness:
  "getFilmography precedenceGraph freshWorld 1 =
     (\<lparr>filmographyCache = [1 \<mapsto> precedenceFilms], calls = [PersonCredits 1]\<rparr>, Inr precedenceFilms)
   \<and> find (\<lambda>m. 9 \<in> set (consideredCast precedenceGraph m)) (topMovies precedenceFilms)
       = Some (film 40 9)
   \<and> film 30 2 \<in> set (topMovies precedenceFilms)
   \<and> 9 \<in> set (consideredCast precedenceGraph (film 30 2))
   \<and> map_of (projr (snd (getCoStars precedenceGraph freshWorld 1))) 9 = Some (coStarInfoOf (film 40 9))
   \<and> cc_popularity (film 30 2) \<le> cc_popularity (film 40 9)"
proof -
  have h: "getFilmography precedenceGraph freshWorld 1 =
     (\<lparr>filmographyCache = [1 \<mapsto> precedenceFilms], calls = [PersonCredits 1]\<rparr>, Inr precedenceFilms)"
    by (simp add: getFilmography_def precedenceGraph_def freshWorld_def issue_def)
  have f: "find (\<lambda>m. 9 \<in> set (consideredCast precedenceGraph m)) (topMovies precedenceFilms)
       = Some (film 40 9)"
    by code_simp
  have m: "film 30 2 \<in> set (topMovies precedenceFilms)"
    by code_simp
  have c: "9 \<in> set (consideredCast precedenceGraph (film 30 2))"
    by code_simp
  from costar_first_movie_wins [OF h, of 9] f m c h show ?thesis
    by auto
qed

subsection \<open>The caps on movies and on cast members\<close>

text \<open>
  C6. One expansion step fetches the cast of exactly the movies of \<open>topMovies\<close>, in
  that order, and of no movie when the filmography cannot be fetched. These are at
  most 20 entries of the filmography, all with a release date; every dated entry left
  out is at most as popular as every entry kept, and entries are left out only when
  20 are kept. Every co-star returned is among the first 30 cast members of a movie
  that was fetched.
\<close>

theorem fan_out_cap:
  "castFetches (callsSince (length (calls w)) (fst (getCoStars e w a))) =
     (case snd (getFilmography e w a) of Inl err \<Rightarrow> [] | Inr f \<Rightarrow> map cc_id (topMovies f))
   \<and> length (topMovies f) \<le> 20
   \<and> set (topMovies f) \<subseteq> {m \<in> set (pc_cast f). truthy (cc_release_date m)}
   \<and> (\<exists>rest. mset (filter (\<lambda>m. truthy (cc_release_date m)) (pc_cast f))
                = mset (topMovies f) + mset rest
        \<and> (\<forall>k\<in>set (topMovies f). \<forall>r\<in>set rest. cc_popularity r \<le> cc_popularity k)
        \<and> (rest \<noteq> [] \<longrightarrow> length (topMovies f) = 20))
   \<and> (snd (getFilmography e w a) = Inr f \<and> snd (getCoStars e w a) = Inr coStars
        \<and> (x, info) \<in> set coStars \<longrightarrow>
        (\<exists>m\<in>set (topMovies f). \<exists>credits. getMovieCredits e (cc_id m) = Inr credits
            \<and> x \<in> cm_id ` set (take 30 (mc_cast credits)) \<and> info = coStarInfoOf m))"
proof -
  have 1: "length (topMovies f) \<le> 20"
    by (simp add: topMovies_def)
  have 2: "set (topMovies f) \<subseteq> {m \<in> set (pc_cast f). truthy (cc_release_date m)}"
    unfolding topMovies_def by (auto dest!: in_set_takeD)
  have 3: "snd (getFilmography e w a) = Inr f \<Longrightarrow> snd (getCoStars e w a) = Inr coStars
        \<Longrightarrow> (x, info) \<in> set coStars \<Longrightarrow>
        (\<exists>m\<in>set (topMovies f). \<exists>credits. getMovieCredits e (cc_id m) = Inr credits
            \<and> x \<in> cm_id ` set (take 30 (mc_cast credits)) \<and> info = coStarInfoOf m)"
  proof -
    assume a: "snd (getFilmography e w a) = Inr f" "snd (getCoStars e w a) = Inr coStars"
      "(x, info) \<in> set coStars"
    obtain w1 where g: "getFilmography e w a = (w1, Inr f)"
      using a(1) by (cases "getFilmography e w a") auto
    from getCoStars_Inr [OF g] a(2,3)
    have "(x, info) \<in> set (snd (scanMovies e a (topMovies f) (w1, [])))"
      by simp
    from scanMovies_entries [OF this] show ?thesis by simp
  qed
  from 1 2 3 getCoStars_castFetches [of w e a] topMovies_rest [of f] show ?thesis
    by blast
qed

theorem fan_out_cap_witness:
  "snd (getFilmography manyFilmsGraph freshWorld 1) = Inr manyFilms
   \<and> snd (getCoStars manyFilmsGraph freshWorld 1)
       = Inr (projr (snd (getCoStars manyFilmsGraph freshWorld 1)))
   \<and> (30, coStarInfoOf (film 125 125)) \<in> set (projr (snd (getCoStars manyFilmsGraph freshWorld 1)))
   \<and> length (pc_cast manyFilms) = 26
   \<and> castFetches (callsSince 0 (fst (getCoStars manyFilmsGraph freshWorld 1)))
       = [125, 124, 123, 122, 121, 120, 119, 118, 117, 116, 115, 114, 113, 112, 111, 110, 109, 108, 107, 106]
   \<and> length (topMovies manyFilms) \<le> 20
   \<and> undated 99 1000 \<notin> set (topMovies manyFilms)
   \<and> 31 \<notin> fst ` set (projr (snd (getCoStars manyFilmsGraph freshWorld 1)))
   \<and> (\<exists>m\<in>set (topMovies manyFilms). \<exists>credits.
         getMovieCredits manyFilmsGraph (cc_id m) = Inr credits
         \<and> 30 \<in> cm_id ` set (take 30 (mc_cast credits))
         \<and> coStarInfoOf (film 125 125) = coStarInfoOf m)"
proof -
  let ?CS = "projr (snd (getCoStars manyFilmsGraph freshWorld 1))"
  have h1: "snd (getFilmography manyFilmsGraph freshWorld 1) = Inr manyFilms"
    by (simp add: getFilmography_def manyFilmsGraph_def freshWorld_def issue_def)
  have "\<not> isl (snd (getCoStars manyFilmsGraph freshWorld 1))"
    by code_simp
  then have h2: "snd (getCoStars manyFilmsGraph freshWorld 1) = Inr ?CS"
    by simp
  have h3: "(30, coStarInfoOf (film 125 125)) \<in> set ?CS"
    by code_simp
  have h4: "map cc_id (topMovies manyFilms) = [125, 124, 123, 122, 121, 120, 119, 118, 117, 116, 115, 114, 113, 112, 111, 110, 109, 108, 107, 106]"
    by code_simp
  have h5: "length (pc_cast manyFilms) = 26"
    by code_simp
  have h6: "31 \<notin> fst ` set ?CS"
    by code_simp
  have h7: "\<not> truthy (cc_release_date (undated 99 1000))"
    by (simp add: undated_def)
  have h8: "calls freshWorld = []"
    by (simp add: freshWorld_def)
  from fan_out_cap [of freshWorld manyFilmsGraph 1 manyFilms ?CS 30 "coStarInfoOf (film 125 125)"]
    h1 h2 h3 h4 h5 h6 h7 h8
  show ?thesis by auto
qed

subsection \<open>The identity call\<close>

text \<open>
  When the detail lookup for \<open>x\<close> resolves, \<open>findConnection(x, x, _)\<close> returns degrees
  0 and a path of one segment with no connecting movie, for every option record and
  with no loop iteration used. The actor of the segment has the id the provider
  answered. The only external call is the detail lookup.
\<close>

lemma identity_call_resolved:
  assumes "getPersonDetails e x = Inr person"
  shows "findConnection fuel e w x x opts =
           (issue (PersonDetails x) w,
            Some (Inr (Some
              \<lparr>degrees = 0,
               path = [\<lparr>actor = \<lparr>pa_id = person_id person, pa_name = person_name person,
                                 profilePath = profile_path person,
                                 isDeceased = truthy (deathday person)\<rparr>,
                        seg_movie = None\<rparr>],
               totalDeceased = (if truthy (deathday person) then 1 else 0),
               deceasedOnPath = []\<rparr>)))"
  using assms by (simp add: findConnection_def)

text \<open>
  C7. The claim: for every actor id \<open>x\<close> the identity call returns degrees 0 and
  the single segment of actor \<open>x\<close>. With a provider whose detail lookup is rejected,
  \<open>findConnection(7, 7, {maxDegrees: 6})\<close> returns nothing: the call is rejected with
  the provider's error, for the lookup of line 129 is outside any \<open>try\<close>. The
  enrichment loop of lines 320 to 335 catches the same failure of the same lookup
  and puts the placeholder \<open>Actor 7\<close> in its place.
\<close>

theorem identity_call_rethrows:
  "getPersonDetails detailsDown 7 = Inl ProviderUnavailable
   \<and> snd (findConnection 0 detailsDown freshWorld 7 7 \<lparr>maxDegrees = Some 6\<rparr>)
       = Some (Inl ProviderUnavailable)
   \<and> calls (fst (findConnection 0 detailsDown freshWorld 7 7 \<lparr>maxDegrees = Some 6\<rparr>))
       = [PersonDetails 7]
   \<and> snd (fetchActorDetails detailsDown [7] (freshWorld, Map.empty)) 7
       = Some \<lparr>ai_name = ''Actor 7'', ai_profilePath = None, ai_isDeceased = False\<rparr>"
  by code_simp

subsection \<open>One filmography fetch per actor\<close>

lemma getFilmography_fetched:
  assumes "fetchedCached n v" "getFilmography e v a = (v', r)"
  shows "if isl r then fetchedOnce n v' else fetchedCached n v'"
proof (cases "filmographyCache v a")
  case (Some c)
  with assms show ?thesis by (auto simp: getFilmography_def)
next
  case None
  with assms(1) have "a \<notin> set (creditFetches (drop n (calls v)))"
    by (auto simp: fetchedCached_def)
  note fresh = this
  show ?thesis
  proof (cases "getPersonCredits e a")
    case (Inl err)
    with None have "getFilmography e v a = (issue (PersonCredits a) v, Inl err)"
      by (simp add: getFilmography_def Let_def)
    with assms(2) have "v' = issue (PersonCredits a) v" "isl r"
      by auto
    with assms(1) fresh show ?thesis
      by (simp add: fetchedCached_def fetchedOnce_def)
  next
    case (Inr c)
    with None have "getFilmography e v a =
        ((issue (PersonCredits a) v)\<lparr>filmographyCache := (filmographyCache v)(a \<mapsto> c)\<rparr>, Inr c)"
      by (simp add: getFilmography_def Let_def)
    with assms(2)
    have "calls v' = calls v @ [PersonCredits a]"
      "filmographyCache v' = (filmographyCache v)(a \<mapsto> c)" "\<not> isl r"
      by auto
    with assms(1) fresh show ?thesis
      by (auto simp: fetchedCached_def fetchedOnce_def)
  qed
qed

lemma getCoStars_fetched:
  assumes "fetchedCached n v" "getCoStars e v a = (v', r)"
  shows "if isl r then fetchedOnce n v' else fetchedCached n v'"
proof -
  obtain v1 r1 where g: "getFilmography e v a = (v1, r1)"
    by (cases "getFilmography e v a")
  note f = getFilmography_fetched [OF assms(1) g]
  show ?thesis
  proof (cases r1)
    case (Inl err)
    with g f assms(2) show ?thesis by (auto simp: getCoStars_Inl)
  next
    case (Inr film)
    with g assms(2) have v': "v' = fst (scanMovies e a (topMovies film) (v1, []))" and "\<not> isl r"
      by (auto simp: getCoStars_Inr)
    with f Inr show ?thesis
      by (auto simp: fetchedCached_def fetchedOnce_def scanMovies_calls scanMovies_cache)
  qed
qed

lemma bfsLoop_fetched:
  assumes "fetchedCached n v" "bfsLoop fuel e d (v, s) = (v', r)"
  shows "fetchedOnce n v'"
proof -
  have "case r of None \<Rightarrow> fetchedCached n v'
        | Some x \<Rightarrow> if isl x then fetchedOnce n v' else fetchedCached n v'"
    by (rule bfsLoop_world [where P = "fetchedCached n" and Q = "fetchedOnce n", OF _ _ assms])
       (auto simp: getCoStars_fetched, simp add: fetchedCached_def)
  then show ?thesis
    by (auto simp: fetchedCached_def split: option.splits if_splits)
qed

lemma finishSearch_fetched:
  assumes "fetchedOnce n v" "finishSearch e v s mp = (v', r)"
  shows "fetchedOnce n v'"
proof -
  obtain v1 d where f: "fetchActorDetails e (map fst (combinedPath s mp)) (v, Map.empty) = (v1, d)"
    by (cases "fetchActorDetails e (map fst (combinedPath s mp)) (v, Map.empty)")
  from fetchActorDetails_calls [of e "map fst (combinedPath s mp)" v Map.empty] f
  have c: "calls v1 = calls v @ map (\<lambda>p. PersonDetails (fst p)) (combinedPath s mp)"
    by (simp add: o_def)
  with assms(1) have "fetchedOnce n v1"
    by (simp add: fetchedOnce_def)
  with f assms(2) show ?thesis
    by (auto simp: finishSearch_def Let_def fetchedOnce_def split: sum.splits)
qed

text \<open>
  C8. Among the external calls that one call of \<open>findConnection\<close> issues, however
  many loop iterations it is given and whether it returns, throws or is cut off, no
  two are filmography fetches for the same actor id. An access to a cached id
  returns the cached filmography and issues no call, and a filmography that was
  fetched is in the cache afterwards.
\<close>

theorem filmography_fetched_once:
  "distinct (creditFetches (callsSince (length (calls w)) (fst (findConnection fuel e w a b opts))))
   \<and> (filmographyCache w x = Some credits \<longrightarrow> getFilmography e w x = (w, Inr credits))
   \<and> (getFilmography e w x = (w', Inr credits) \<longrightarrow> filmographyCache w' x = Some credits)"
proof -
  let ?n = "length (calls w)"
  have "fetchedOnce ?n (fst (findConnection fuel e w a b opts))"
  proof (cases "a = b")
    case True
    then show ?thesis by (simp add: findConnection_same fetchedOnce_def)
  next
    case False
    let ?d = "case maxDegrees opts of None \<Rightarrow> 6 | Some d \<Rightarrow> d"
    obtain v1 r1 where l: "bfsLoop fuel e ?d (clearFilmographyCache w, initialState a b) = (v1, r1)"
      by (cases "bfsLoop fuel e ?d (clearFilmographyCache w, initialState a b)")
    have "fetchedCached ?n (clearFilmographyCache w)"
      by (simp add: fetchedCached_def fetchedOnce_def)
    from bfsLoop_fetched [OF this l] have v1: "fetchedOnce ?n v1" .
    then have "fetchedOnce ?n (clearFilmographyCache v1)"
      by (simp add: fetchedOnce_def)
    with False l v1 show ?thesis
      by (auto simp: findConnection_distinct split: option.splits sum.splits prod.splits
          dest: finishSearch_fetched [OF v1])
  qed
  moreover have "filmographyCache w x = Some credits \<longrightarrow> getFilmography e w x = (w, Inr credits)"
    by (simp add: getFilmography_def)
  moreover have "getFilmography e w x = (w', Inr credits) \<longrightarrow> filmographyCache w' x = Some credits"
    by (auto simp: getFilmography_def Let_def split: option.splits sum.splits)
  ultimately show ?thesis
    by (simp add: fetchedOnce_def callsSince_def)
qed

theorem filmography_fetched_once_witness:
  "filmographyCache staleWorld 1 = Some \<lparr>pc_cast = [film 10 1]\<rparr>
   \<and> getFilmography twoHopGraph staleWorld 1 = (staleWorld, Inr \<lparr>pc_cast = [film 10 1]\<rparr>)
   \<and> creditFetches (callsSince (length (calls staleWorld))
         (fst (findConnection 5 twoHopGraph staleWorld 1 2 \<lparr>maxDegrees = None\<rparr>))) = [1, 2]
   \<and> distinct (creditFetches (callsSince (length (calls staleWorld))
         (fst (findConnection 5 twoHopGraph staleWorld 1 2 \<lparr>maxDegrees = None\<rparr>))))"
proof -
  have h1: "filmographyCache staleWorld 1 = Some \<lparr>pc_cast = [film 10 1]\<rparr>"
    by (simp add: staleWorld_def)
  have h2: "creditFetches (callsSince (length (calls staleWorld))
         (fst (findConnection 5 twoHopGraph staleWorld 1 2 \<lparr>maxDegrees = None\<rparr>))) = [1, 2]"
    by code_simp
  from filmography_fetched_once
         [of staleWorld 5 twoHopGraph 1 2 "\<lparr>maxDegrees = None\<rparr>" 1
             "\<lparr>pc_cast = [film 10 1]\<rparr>" staleWorld] h1 h2
  show ?thesis by simp
qed

subsection \<open>The actors of a path are pairwise different\<close>

lemma chainIds_simps [simp]:
  "chainIds (BFSNode a None m) = [a]"
  "chainIds (BFSNode a (Some p) m) = a # chainIds p"
  by (simp_all add: chainIds_def)

lemma chainIds_hd: "chainIds n = actorId n # (case parent n of None \<Rightarrow> [] | Some p \<Rightarrow> chainIds p)"
  by (cases n) (simp add: chainIds_def split: option.splits)

lemma nodeOK_mono: "nodeOK v n \<Longrightarrow> dom v \<subseteq> dom v' \<Longrightarrow> nodeOK v' n"
  unfolding nodeOK_def by blast

lemma nodeOK_child:
  "nodeOK v current \<Longrightarrow> c \<notin> dom v \<Longrightarrow> nodeOK (v(c \<mapsto> x)) (BFSNode c (Some current) m)"
  by (auto simp: nodeOK_def)

lemma sideOK_visit:
  assumes "sideOK v q" "nodeOK v current" "c \<notin> dom v"
  shows "sideOK (v(c \<mapsto> BFSNode c (Some current) m)) q"
    and "sideOK (v(c \<mapsto> BFSNode c (Some current) m)) (q @ [BFSNode c (Some current) m])"
proof -
  let ?n = "BFSNode c (Some current) m"
  let ?v = "v(c \<mapsto> ?n)"
  have d: "dom v \<subseteq> dom ?v" by auto
  have new: "nodeOK ?v ?n"
    using assms(2,3) by (rule nodeOK_child)
  have old: "\<And>n. nodeOK v n \<Longrightarrow> nodeOK ?v n"
    using d by (rule nodeOK_mono [rotated])
  have vis: "\<forall>k n. ?v k = Some n \<longrightarrow> actorId n = k \<and> nodeOK ?v n"
    using assms(1) new old by (auto simp: sideOK_def)
  have qu: "\<forall>n\<in>set q. nodeOK ?v n"
    using assms(1) old by (auto simp: sideOK_def)
  from vis qu show "sideOK ?v q" by (simp add: sideOK_def)
  from vis qu new show "sideOK ?v (q @ [?n])" by (simp add: sideOK_def)
qed

lemma searchInv_degrees [simp]:
  "searchInv (s\<lparr>degreesFromA := x\<rparr>) = searchInv s"
  "searchInv (s\<lparr>degreesFromB := y\<rparr>) = searchInv s"
  by (simp_all add: searchInv_def)

lemma scanCoStarsA_inv:
  "searchInv s \<Longrightarrow> meetingPoint s = None \<Longrightarrow> nodeOK (visitedFromA s) current
   \<Longrightarrow> searchInv (scanCoStarsA current cs s)"
proof (induction cs arbitrary: s)
  case Nil
  then show ?case by simp
next
  case (Cons p cs)
  obtain c info where p: "p = (c, info)" by (cases p)
  let ?n = "BFSNode c (Some current) (Some (nodeMovieOf info))"
  from Cons.prems have sa: "sideOK (visitedFromA s) (queueA s)"
    and sb: "sideOK (visitedFromB s) (queueB s)"
    and dj: "dom (visitedFromA s) \<inter> dom (visitedFromB s) = {}"
    by (simp_all add: searchInv_def)
  show ?case
  proof (cases "visitedFromB s c")
    case (Some nodeB)
    with dj have fresh: "c \<notin> dom (visitedFromA s)" by auto
    from Some dj have "dom ((visitedFromA s)(c \<mapsto> ?n)) \<inter> dom (visitedFromB s) = {c}"
      by auto
    with sideOK_visit(1) [OF sa Cons.prems(3) fresh] sb Some p show ?thesis
      by (simp add: searchInv_def)
  next
    case None
    show ?thesis
    proof (cases "visitedFromA s c")
      case (Some nodeA)
      with None p Cons show ?thesis by simp
    next
      case noA: None
      then have fresh: "c \<notin> dom (visitedFromA s)" by auto
      let ?s = "s\<lparr>visitedFromA := (visitedFromA s)(c \<mapsto> ?n), queueA := queueA s @ [?n]\<rparr>"
      from None dj have "dom ((visitedFromA s)(c \<mapsto> ?n)) \<inter> dom (visitedFromB s) = {}"
        by auto
      with sideOK_visit(2) [OF sa Cons.prems(3) fresh] sb Cons.prems(2)
      have inv: "searchInv ?s" by (simp add: searchInv_def)
      have cur: "nodeOK (visitedFromA ?s) current"
        using Cons.prems(3) by (auto intro: nodeOK_mono)
      from Cons.IH [OF inv _ cur] Cons.prems(2) None noA p show ?thesis
        by simp
    qed
  qed
qed

lemma scanCoStarsB_inv:
  "searchInv s \<Longrightarrow> meetingPoint s = None \<Longrightarrow> nodeOK (visitedFromB s) current
   \<Longrightarrow> searchInv (scanCoStarsB current cs s)"
proof (induction cs arbitrary: s)
  case Nil
  then show ?case by simp
next
  case (Cons p cs)
  obtain c info where p: "p = (c, info)" by (cases p)
  let ?n = "BFSNode c (Some current) (Some (nodeMovieOf info))"
  from Cons.prems have sa: "sideOK (visitedFromA s) (queueA s)"
    and sb: "sideOK (visitedFromB s) (queueB s)"
    and dj: "dom (visitedFromA s) \<inter> dom (visitedFromB s) = {}"
    by (simp_all add: searchInv_def)
  show ?case
  proof (cases "visitedFromA s c")
    case (Some nodeA)
    with dj have fresh: "c \<notin> dom (visitedFromB s)" by auto
    from Some dj have "dom (visitedFromA s) \<inter> dom ((visitedFromB s)(c \<mapsto> ?n)) = {c}"
      by auto
    with sideOK_visit(1) [OF sb Cons.prems(3) fresh] sa Some p show ?thesis
      by (simp add: searchInv_def)
  next
    case None
    show ?thesis
    proof (cases "visitedFromB s c")
      case (Some nodeB)
      with None p Cons show ?thesis by simp
    next
      case noB: None
      then have fresh: "c \<notin> dom (visitedFromB s)" by auto
      let ?s = "s\<lparr>visitedFromB := (visitedFromB s)(c \<mapsto> ?n), queueB := queueB s @ [?n]\<rparr>"
      from None dj have "dom (visitedFromA s) \<inter> dom ((visitedFromB s)(c \<mapsto> ?n)) = {}"
        by auto
      with sideOK_visit(2) [OF sb Cons.prems(3) fresh] sa Cons.prems(2)
      have inv: "searchInv ?s" by (simp add: searchInv_def)
      have cur: "nodeOK (visitedFromB ?s) current"
        using Cons.prems(3) by (auto intro: nodeOK_mono)
      from Cons.IH [OF inv _ cur] Cons.prems(2) None noB p show ?thesis
        by simp
    qed
  qed
qed

lemma expandLevelA_inv:
  "searchInv s \<Longrightarrow> meetingPoint s = None \<Longrightarrow> expandLevelA e n (w, s) = (w', Inr s')
   \<Longrightarrow> searchInv s'"
proof (induction n arbitrary: w s)
  case 0
  then show ?case by simp
next
  case (Suc n)
  show ?case
  proof (cases "queueA s")
    case Nil
    with Suc.prems show ?thesis by simp
  next
    case (Cons current q)
    obtain w1 r1 where g: "getCoStars e w (actorId current) = (w1, r1)"
      by (cases "getCoStars e w (actorId current)")
    show ?thesis
    proof (cases r1)
      case (Inl err)
      with Suc.prems Cons g show ?thesis by simp
    next
      case (Inr coStars)
      let ?s0 = "s\<lparr>queueA := q\<rparr>"
      let ?s1 = "scanCoStarsA current coStars ?s0"
      from Suc.prems(1) Cons have cur: "nodeOK (visitedFromA ?s0) current"
        and inv0: "searchInv ?s0"
        by (auto simp: searchInv_def sideOK_def)
      from scanCoStarsA_inv [OF inv0 _ cur] Suc.prems(2) have inv1: "searchInv ?s1"
        by simp
      show ?thesis
      proof (cases "meetingPoint ?s1 \<noteq> None")
        case True
        with Suc.prems(3) Cons g Inr have "s' = ?s1" by (simp add: Let_def)
        with inv1 show ?thesis by simp
      next
        case False
        with Suc.prems(3) Cons g Inr have "expandLevelA e n (w1, ?s1) = (w', Inr s')"
          by (simp add: Let_def)
        from Suc.IH [OF inv1 _ this] False show ?thesis by simp
      qed
    qed
  qed
qed

lemma expandLevelB_inv:
  "searchInv s \<Longrightarrow> meetingPoint s = None \<Longrightarrow> expandLevelB e n (w, s) = (w', Inr s')
   \<Longrightarrow> searchInv s'"
proof (induction n arbitrary: w s)
  case 0
  then show ?case by simp
next
  case (Suc n)
  show ?case
  proof (cases "queueB s")
    case Nil
    with Suc.prems show ?thesis by simp
  next
    case (Cons current q)
    obtain w1 r1 where g: "getCoStars e w (actorId current) = (w1, r1)"
      by (cases "getCoStars e w (actorId current)")
    show ?thesis
    proof (cases r1)
      case (Inl err)
      with Suc.prems Cons g show ?thesis by simp
    next
      case (Inr coStars)
      let ?s0 = "s\<lparr>queueB := q\<rparr>"
      let ?s1 = "scanCoStarsB current coStars ?s0"
      from Suc.prems(1) Cons have cur: "nodeOK (visitedFromB ?s0) current"
        and inv0: "searchInv ?s0"
        by (auto simp: searchInv_def sideOK_def)
      from scanCoStarsB_inv [OF inv0 _ cur] Suc.prems(2) have inv1: "searchInv ?s1"
        by simp
      show ?thesis
      proof (cases "meetingPoint ?s1 \<noteq> None")
        case True
        with Suc.prems(3) Cons g Inr have "s' = ?s1" by (simp add: Let_def)
        with inv1 show ?thesis by simp
      next
        case False
        with Suc.prems(3) Cons g Inr have "expandLevelB e n (w1, ?s1) = (w', Inr s')"
          by (simp add: Let_def)
        from Suc.IH [OF inv1 _ this] False show ?thesis by simp
      qed
    qed
  qed
qed

lemma loopBody_inv:
  assumes inv: "searchInv s" and nomeet: "meetingPoint s = None"
    and run: "loopBody e (w, s) = (w', Inr (fl, s'))"
  shows "searchInv s' \<and> (fl = Continue \<longrightarrow> meetingPoint s' = None)"
proof -
  obtain w1 r1 where a: "expandFromA e (w, s) = (w1, r1)"
    by (cases "expandFromA e (w, s)")
  from run a obtain s1 where r1: "r1 = Inr s1"
    by (cases r1) (auto simp: loopBody_def)
  have inv1: "searchInv s1"
  proof (cases "runsA s")
    case True
    with a r1 have "expandLevelA e (length (queueA s)) (w, s\<lparr>degreesFromA := degreesFromA s + 1\<rparr>)
                     = (w1, Inr s1)"
      by (simp add: expandFromA_def)
    from expandLevelA_inv [OF _ _ this] inv nomeet show ?thesis by simp
  next
    case False
    with a r1 inv show ?thesis by (simp add: expandFromA_def)
  qed
  have same: "\<not> runsA s \<Longrightarrow> s1 = s"
    using a r1 by (simp add: expandFromA_def)
  show ?thesis
  proof (cases "runsA s \<and> meetingPoint s1 \<noteq> None")
    case True
    with run a r1 have "s' = s1" "fl = Break" by (auto simp: loopBody_def)
    with inv1 show ?thesis by simp
  next
    case False
    with same nomeet have nomeet1: "meetingPoint s1 = None" by auto
    obtain w2 r2 where b: "expandFromB e (w1, s1) = (w2, r2)"
      by (cases "expandFromB e (w1, s1)")
    from run a r1 False b have r2: "r2 = Inr s'"
      and fl: "fl = (if runsB s1 \<and> meetingPoint s' \<noteq> None then Break else Continue)"
      by (cases r2; auto simp: loopBody_def split: if_splits)+
    have inv2: "searchInv s'"
    proof (cases "runsB s1")
      case True
      with b r2 have "expandLevelB e (length (queueB s1)) (w1, s1\<lparr>degreesFromB := degreesFromB s1 + 1\<rparr>)
                       = (w2, Inr s')"
        by (simp add: expandFromB_def)
      from expandLevelB_inv [OF _ _ this] inv1 nomeet1 show ?thesis by simp
    next
      case False
      with b r2 inv1 show ?thesis by (simp add: expandFromB_def)
    qed
    have "\<not> runsB s1 \<Longrightarrow> s' = s1"
      using b r2 by (simp add: expandFromB_def)
    with fl nomeet1 inv2 show ?thesis by (auto split: if_splits)
  qed
qed

lemma bfsLoop_inv:
  "searchInv s \<Longrightarrow> meetingPoint s = None \<Longrightarrow> bfsLoop fuel e d (w, s) = (w', Some (Inr s'))
   \<Longrightarrow> searchInv s'"
proof (induction fuel arbitrary: w s)
  case 0
  then show ?case by simp
next
  case (Suc fuel)
  show ?case
  proof (cases "loopTest d s")
    case False
    with Suc.prems show ?thesis by (simp add: bfsLoop_exit del: bfsLoop.simps)
  next
    case True
    note run = Suc.prems(3) [unfolded bfsLoop_iterate [OF True]]
    obtain w1 r1 where b: "loopBody e (w, s) = (w1, r1)"
      by (cases "loopBody e (w, s)")
    from run b obtain fl s1 where r1: "r1 = Inr (fl, s1)"
      by (cases r1) auto
    note st = loopBody_inv [OF Suc.prems(1,2) b [unfolded r1]]
    show ?thesis
    proof (cases fl)
      case Break
      with run b r1 st show ?thesis by auto
    next
      case Continue
      with run b r1 have "bfsLoop fuel e d (w1, s1) = (w', Some (Inr s'))" by simp
      from Suc.IH [OF _ _ this] st Continue show ?thesis by simp
    qed
  qed
qed

lemma searchInv_initial: "a \<noteq> b \<Longrightarrow> searchInv (initialState a b)"
  by (auto simp: searchInv_def sideOK_def nodeOK_def initialState_def)

lemma count_list_distinct: "distinct xs \<Longrightarrow> x \<in> set xs \<Longrightarrow> count_list xs x = 1"
  by (induction xs) auto

lemma combinedPath_distinct:
  assumes "searchInv s" "meetingPoint s = Some mp"
  shows "distinct (map fst (combinedPath s mp))"
    and "count_list (map fst (combinedPath s mp)) (mp_actorId mp) = 1"
    and "dom (visitedFromA s) \<inter> dom (visitedFromB s) = {mp_actorId mp}"
proof -
  let ?m = "mp_actorId mp"
  from assms show meet: "dom (visitedFromA s) \<inter> dom (visitedFromB s) = {?m}"
    by (simp add: searchInv_def)
  then obtain nA nB where nA: "visitedFromA s ?m = Some nA" and nB: "visitedFromB s ?m = Some nB"
    by blast
  from assms(1) nA have okA: "actorId nA = ?m" "nodeOK (visitedFromA s) nA"
    by (auto simp: searchInv_def sideOK_def)
  from assms(1) nB have okB: "actorId nB = ?m" "nodeOK (visitedFromB s) nB"
    by (auto simp: searchInv_def sideOK_def)
  define tail where "tail = (case parent nB of None \<Rightarrow> [] | Some p \<Rightarrow> chainIds p)"
  have pa: "map fst (pathFromA s mp) = rev (chainIds nA)"
    using nA by (simp add: pathFromA_def chainIds_def rev_map)
  have pb: "map fst (pathFromB s mp) = tail"
    using nB by (simp add: pathFromB_def chainIds_def tail_def split: option.splits)
  have cb: "chainIds nB = ?m # tail"
    using chainIds_hd [of nB] okB(1) by (simp add: tail_def)
  from okB(2) cb have tl: "distinct tail" "?m \<notin> set tail" "set tail \<subseteq> dom (visitedFromB s)"
    by (auto simp: nodeOK_def)
  from okA(2) have hd: "distinct (chainIds nA)" "set (chainIds nA) \<subseteq> dom (visitedFromA s)"
    by (auto simp: nodeOK_def)
  have inA: "?m \<in> set (chainIds nA)"
    using chainIds_hd [of nA] okA(1) by simp
  from hd(2) tl(3) have "set (chainIds nA) \<inter> set tail \<subseteq> dom (visitedFromA s) \<inter> dom (visitedFromB s)"
    by blast
  then have "set (chainIds nA) \<inter> set tail \<subseteq> {?m}"
    by (simp only: meet)
  with tl(2) have disj: "set (chainIds nA) \<inter> set tail = {}"
    by auto
  from hd tl disj show d: "distinct (map fst (combinedPath s mp))"
    by (simp add: combinedPath_def pa pb)
  have "?m \<in> set (map fst (combinedPath s mp))"
    using inA by (simp add: combinedPath_def pa pb)
  with d show "count_list (map fst (combinedPath s mp)) ?m = 1"
    by (rule count_list_distinct)
qed

lemma buildFinalPath_ids:
  "buildFinalPath d combined = Inr finalPath
   \<Longrightarrow> map (\<lambda>p. pa_id (actor p)) finalPath = map fst combined"
  by (induction combined arbitrary: finalPath) (auto split: option.splits sum.splits)

lemma finishSearch_path:
  "finishSearch e w s mp = (w', Inr (Some r))
   \<Longrightarrow> map (\<lambda>p. pa_id (actor p)) (path r) = map fst (combinedPath s mp)"
  by (auto simp: finishSearch_def Let_def split: prod.splits sum.splits
      dest: buildFinalPath_ids)

text \<open>
  C9. A search between two different actors that returns a result ended its loop
  with a meeting point. The actor ids of the returned path are those of the combined
  path rebuilt from the two visited maps; the meeting actor occurs exactly once in
  it; the two visited maps have the meeting actor in common and no other actor; and
  the actors of the returned path are pairwise different.
\<close>

theorem path_actors_distinct:
  assumes "a \<noteq> b"
    and "snd (findConnection fuel e w a b opts) = Some (Inr (Some r))"
  shows "\<exists>w1 s mp.
           bfsLoop fuel e (case maxDegrees opts of None \<Rightarrow> 6 | Some d \<Rightarrow> d)
             (clearFilmographyCache w, initialState a b) = (w1, Some (Inr s))
           \<and> meetingPoint s = Some mp
           \<and> map (\<lambda>p. pa_id (actor p)) (path r) = map fst (combinedPath s mp)
           \<and> count_list (map fst (combinedPath s mp)) (mp_actorId mp) = 1
           \<and> dom (visitedFromA s) \<inter> dom (visitedFromB s) = {mp_actorId mp}
           \<and> distinct (map (\<lambda>p. pa_id (actor p)) (path r))"
proof -
  let ?d = "case maxDegrees opts of None \<Rightarrow> 6 | Some d \<Rightarrow> d"
  obtain w1 r1 where l: "bfsLoop fuel e ?d (clearFilmographyCache w, initialState a b) = (w1, r1)"
    by (cases "bfsLoop fuel e ?d (clearFilmographyCache w, initialState a b)")
  from assms l obtain s mp w2 where r1: "r1 = Some (Inr s)" and mp: "meetingPoint s = Some mp"
    and fin: "finishSearch e w1 s mp = (w2, Inr (Some r))"
    by (auto simp: findConnection_distinct split: option.splits sum.splits prod.splits)
  have "meetingPoint (initialState a b) = None"
    by (simp add: initialState_def)
  from bfsLoop_inv [OF searchInv_initial [OF assms(1)] this l [unfolded r1]]
  have inv: "searchInv s" .
  note c = combinedPath_distinct [OF inv mp]
  note p = finishSearch_path [OF fin]
  from l r1 mp c p show ?thesis by simp
qed


theorem path_actors_distinct_witness:
  "(1::int) \<noteq> 2
   \<and> (\<exists>r. snd (findConnection 5 twoHopGraph freshWorld 1 2 \<lparr>maxDegrees = None\<rparr>) = Some (Inr (Some r))
          \<and> map (\<lambda>p. pa_id (actor p)) (path r) = [1, 3, 2]
          \<and> distinct (map (\<lambda>p. pa_id (actor p)) (path r)))"
proof -
  have "case snd (findConnection 5 twoHopGraph freshWorld 1 2 \<lparr>maxDegrees = None\<rparr>) of
          Some (Inr (Some r)) \<Rightarrow> map (\<lambda>p. pa_id (actor p)) (path r) = [1, 3, 2]
        | _ \<Rightarrow> False"
    by code_simp
  then obtain r
    where h: "snd (findConnection 5 twoHopGraph freshWorld 1 2 \<lparr>maxDegrees = None\<rparr>) = Some (Inr (Some r))"
      and ids: "map (\<lambda>p. pa_id (actor p)) (path r) = [1, 3, 2]"
    by (auto split: option.splits sum.splits)
  have ne: "(1::int) \<noteq> 2" by simp
  from path_actors_distinct [OF ne h] have "distinct (map (\<lambda>p. pa_id (actor p)) (path r))"
    by blast
  with h ids show ?thesis by simp
qed

subsection \<open>The store of deceased persons and the identity call\<close>

lemma getFilmography_store:
  "getFilmography e w a = (w', r) \<Longrightarrow> storeLookups (calls w') = storeLookups (calls w)"
  by (auto simp: getFilmography_def Let_def split: option.splits sum.splits)

lemma scanMovies_store:
  "scanMovies e a ms (w, cs) = (w', cs') \<Longrightarrow> storeLookups (calls w') = storeLookups (calls w)"
proof (induction ms arbitrary: w cs)
  case Nil
  then show ?case by simp
next
  case (Cons m ms)
  then show ?case
    by (cases "getMovieCredits e (cc_id m)") (auto simp: Let_def)
qed

lemma getCoStars_store:
  "getCoStars e w a = (w', r) \<Longrightarrow> storeLookups (calls w') = storeLookups (calls w)"
  by (auto simp: getCoStars_def split: prod.splits sum.splits
      dest!: getFilmography_store scanMovies_store)

lemma bfsLoop_store:
  assumes "bfsLoop fuel e d (w, s) = (w', r)"
  shows "storeLookups (calls w') = storeLookups (calls w)"
proof -
  have "case r of None \<Rightarrow> storeLookups (calls w') = storeLookups (calls w)
        | Some x \<Rightarrow> if isl x then storeLookups (calls w') = storeLookups (calls w)
                    else storeLookups (calls w') = storeLookups (calls w)"
    by (rule bfsLoop_world
          [where P = "\<lambda>v. storeLookups (calls v) = storeLookups (calls w)"
             and Q = "\<lambda>v. storeLookups (calls v) = storeLookups (calls w)", OF _ _ _ assms])
       (auto dest: getCoStars_store)
  then show ?thesis by (auto split: option.splits if_splits)
qed

lemma store_lookup_needs_meeting:
  assumes "storeLookups (calls (fst (findConnection fuel e w a b opts))) \<noteq> storeLookups (calls w)"
  shows "a \<noteq> b \<and>
         (\<exists>w1 s mp. bfsLoop fuel e (case maxDegrees opts of None \<Rightarrow> 6 | Some d \<Rightarrow> d)
                        (clearFilmographyCache w, initialState a b) = (w1, Some (Inr s))
                     \<and> meetingPoint s = Some mp)"
proof -
  let ?d = "case maxDegrees opts of None \<Rightarrow> 6 | Some d \<Rightarrow> d"
  from assms have ne: "a \<noteq> b"
    by (auto simp: findConnection_same)
  obtain w1 r1 where b: "bfsLoop fuel e ?d (clearFilmographyCache w, initialState a b) = (w1, r1)"
    by (cases "bfsLoop fuel e ?d (clearFilmographyCache w, initialState a b)")
  from bfsLoop_store [OF b] have st: "storeLookups (calls w1) = storeLookups (calls w)" by simp
  from assms ne b st have "\<exists>s mp. r1 = Some (Inr s) \<and> meetingPoint s = Some mp"
    by (auto simp: findConnection_distinct split: option.splits sum.splits)
  with ne b show ?thesis by auto
qed

text \<open>
  C10. The identity call \<open>findConnection(x, x, _)\<close> issues no lookup in the store of
  deceased persons, whatever the providers answer; a result it returns has an empty
  \<open>deceasedOnPath\<close>, and when the actor has a day of death it does return a result,
  with \<open>totalDeceased = 1\<close> and \<open>deceasedOnPath\<close> empty. For any two ids, a call
  that does look the store up has distinct ids and a search loop that ended with a
  meeting point.
\<close>

theorem identity_call_skips_store:
  "storeLookups (calls (fst (findConnection fuel e w x x opts))) = storeLookups (calls w)
   \<and> (\<forall>r. snd (findConnection fuel e w x x opts) = Some (Inr (Some r)) \<longrightarrow> deceasedOnPath r = [])
   \<and> (getPersonDetails e x = Inr person \<and> truthy (deathday person) \<longrightarrow>
        (\<exists>r. snd (findConnection fuel e w x x opts) = Some (Inr (Some r))
             \<and> totalDeceased r = 1 \<and> deceasedOnPath r = []))
   \<and> (storeLookups (calls (fst (findConnection fuel e w a b opts))) \<noteq> storeLookups (calls w) \<longrightarrow>
        a \<noteq> b \<and>
        (\<exists>w1 s mp. bfsLoop fuel e (case maxDegrees opts of None \<Rightarrow> 6 | Some d \<Rightarrow> d)
                       (clearFilmographyCache w, initialState a b) = (w1, Some (Inr s))
                    \<and> meetingPoint s = Some mp))"
  using store_lookup_needs_meeting [of fuel e w a b opts]
  by (auto simp: findConnection_same split: sum.splits)

theorem identity_call_skips_store_witness:
  "getPersonDetails lateActor 7 = Inr ((plainPerson 7)\<lparr>deathday := Some ''2001-02-03''\<rparr>)
   \<and> truthy (deathday ((plainPerson 7)\<lparr>deathday := Some ''2001-02-03''\<rparr>))
   \<and> storeLookups (calls (fst (findConnection 0 lateActor freshWorld 7 7 \<lparr>maxDegrees = None\<rparr>))) = []
   \<and> (\<exists>r. snd (findConnection 0 lateActor freshWorld 7 7 \<lparr>maxDegrees = None\<rparr>) = Some (Inr (Some r))
          \<and> totalDeceased r = 1 \<and> deceasedOnPath r = [])
   \<and> storeLookups (calls (fst (findConnection 5 twoHopGraph freshWorld 1 2 \<lparr>maxDegrees = None\<rparr>))) = [[]]
   \<and> (\<exists>w1 s mp. bfsLoop 5 twoHopGraph 6 (clearFilmographyCache freshWorld, initialState 1 2) = (w1, Some (Inr s))
          \<and> meetingPoint s = Some mp)"
proof -
  have h1: "getPersonDetails lateActor 7 = Inr ((plainPerson 7)\<lparr>deathday := Some ''2001-02-03''\<rparr>)"
    by (simp add: lateActor_def)
  have h2: "truthy (deathday ((plainPerson 7)\<lparr>deathday := Some ''2001-02-03''\<rparr>))"
    by simp
  have h3: "storeLookups (calls (fst (findConnection 5 twoHopGraph freshWorld 1 2 \<lparr>maxDegrees = None\<rparr>))) = [[]]"
    by code_simp
  have h4: "storeLookups (calls freshWorld) = []"
    by (simp add: freshWorld_def)
  show ?thesis
    using h1 h2 h3 h4
      identity_call_skips_store [of 0 lateActor freshWorld 7 "\<lparr>maxDegrees = None\<rparr>"
        "(plainPerson 7)\<lparr>deathday := Some ''2001-02-03''\<rparr>" 7 7]
      identity_call_skips_store [of 5 twoHopGraph freshWorld 1 "\<lparr>maxDegrees = None\<rparr>"
        "plainPerson 1" 1 2]
    by simp
qed

end
